theory Spec2Isabelle
  imports Main "HOL-Library.Word"
begin

unbundle bit_operations_syntax

section \<open>Outgoing DDC I/Q thread of the Saturn P2 application (OutDDCIQ.c)\<close>

text \<open>
  The thread function \<open>OutgoingDDCIQ\<close> is embedded as a state transformer. The state holds the
  file-scope variables of OutDDCIQ.c and the locals of the thread function; every call that
  leaves the file (sendmsg, the FPGA register and DMA calls, usleep, close, free, exit) is
  appended to a trace, as is the segmentation fault that ends the process at line 68, and every value that comes from outside (return values, the DMA data,
  the flag \<open>SDRActive\<close> written by other threads) is read from an environment record, indexed by
  the number of reads made so far.

  Pointers into a buffer are byte offsets from the start of that buffer's allocation, as
  \<open>int\<close>; a buffer is a function from offsets to bytes. The source never checks an offset
  against the allocation, so neither does the model: arithmetic on offsets is unbounded and an
  access outside the allocation (undefined in C) reads or writes the function at that offset.
  The host is the little-endian ARM of the Raspberry Pi named in the file header.
\<close>

type_synonym byte = "8 word"
type_synonym u16 = "16 word"
type_synonym u32 = "32 word"
type_synonym buffer = "int \<Rightarrow> byte"

subsection \<open>Constants of the file\<close>

definition VDMABUFFERSIZE :: nat where "VDMABUFFERSIZE = 131072"
definition VBASE :: int where "VBASE = 0x1000"
definition VDMATRANSFERSIZE :: u32 where "VDMATRANSFERSIZE = 4096"
definition VDDCPACKETSIZE :: nat where "VDDCPACKETSIZE = 1444"
definition VIQSAMPLESPERFRAME :: nat where "VIQSAMPLESPERFRAME = 238"
definition VIQBYTESPERFRAME :: nat where "VIQBYTESPERFRAME = 6 * VIQSAMPLESPERFRAME"
definition VSTARTUPDELAY :: u32 where "VSTARTUPDELAY = 100"

subsection \<open>Memory and byte order\<close>

definition memcpy :: "buffer \<Rightarrow> int \<Rightarrow> buffer \<Rightarrow> int \<Rightarrow> nat \<Rightarrow> buffer" where
  "memcpy dst d src s n = (\<lambda>a. if d \<le> a \<and> a < d + int n then src (s + (a - d)) else dst a)"

definition memset :: "buffer \<Rightarrow> int \<Rightarrow> byte \<Rightarrow> nat \<Rightarrow> buffer" where
  "memset dst d c n = (\<lambda>a. if d \<le> a \<and> a < d + int n then c else dst a)"

definition store_bytes :: "buffer \<Rightarrow> int \<Rightarrow> byte list \<Rightarrow> buffer" where
  "store_bytes dst d bs = (\<lambda>a. if d \<le> a \<and> a < d + int (length bs) then bs ! nat (a - d) else dst a)"

definition le_bytes16 :: "u16 \<Rightarrow> byte list" where
  "le_bytes16 w = [ucast w, ucast (drop_bit 8 w)]"

definition le_bytes32 :: "u32 \<Rightarrow> byte list" where
  "le_bytes32 w = [ucast w, ucast (drop_bit 8 w), ucast (drop_bit 16 w), ucast (drop_bit 24 w)]"

text \<open>\<open>*(uint16_t* )p = w\<close> and \<open>*(uint32_t* )p = w\<close> on the little-endian host.\<close>

definition store_u16 :: "buffer \<Rightarrow> int \<Rightarrow> u16 \<Rightarrow> buffer" where
  "store_u16 m p w = store_bytes m p (le_bytes16 w)"

definition store_u32 :: "buffer \<Rightarrow> int \<Rightarrow> u32 \<Rightarrow> buffer" where
  "store_u32 m p w = store_bytes m p (le_bytes32 w)"

text \<open>\<open>*(uint32_t* )p\<close> on the little-endian host.\<close>

definition load_u32 :: "buffer \<Rightarrow> int \<Rightarrow> u32" where
  "load_u32 m p = ucast (m p) OR push_bit 8 (ucast (m (p + 1)))
                  OR push_bit 16 (ucast (m (p + 2))) OR push_bit 24 (ucast (m (p + 3)))"

text \<open>The libc byte swaps of a little-endian host.\<close>

definition htonl :: "u32 \<Rightarrow> u32" where
  "htonl x = drop_bit 24 (x AND 0xFF000000) OR drop_bit 8 (x AND 0x00FF0000)
             OR push_bit 8 (x AND 0x0000FF00) OR push_bit 24 (x AND 0x000000FF)"

definition htons :: "u16 \<Rightarrow> u16" where
  "htons x = drop_bit 8 (x AND 0xFF00) OR push_bit 8 (x AND 0x00FF)"

text \<open>The big-endian (network order) bytes of a 32-bit value, most significant first.\<close>

definition be_bytes32 :: "u32 \<Rightarrow> byte list" where
  "be_bytes32 w = [ucast (drop_bit 24 w), ucast (drop_bit 16 w), ucast (drop_bit 8 w), ucast w]"

subsection \<open>State, environment and trace\<close>

record sockaddr_in =
  sin_port :: u16
  sin_addr :: u32

text \<open>
  \<open>iov_base\<close>, \<open>msg_name\<close> and \<open>msg_iov\<close> point at the start of \<open>UDPBuffer[i]\<close>, at
  \<open>DestAddr[i]\<close> and at \<open>iovecinst[i]\<close>: they hold the index \<open>i\<close>.
\<close>

record iovec =
  iov_base :: nat
  iov_len :: nat

record msghdr =
  msg_name :: nat
  msg_namelen :: nat
  msg_iov :: nat
  msg_iovlen :: nat
  msg_controllen :: nat
  msg_flags :: int

record fifo_reading =
  rd_value :: u32
  rd_overflow :: bool
  rd_overthreshold :: bool
  rd_underflow :: bool
  rd_current :: u32

datatype event =
    EvOpenDevice
  | EvSetRXDDCEnabled bool
  | EvUsleep nat
  | EvSetupFIFOMonitorChannel
  | EvResetDMAStreamFIFO
  | EvReadFIFOMonitorChannel
  | EvCloseSocket nat
  | EvMakeSocket nat
  | EvSendmsg nat msghdr "byte list"
  | EvDMAReadFromFPGA int u32
  | EvFreeDynamicMemory
  | EvExit int
  | EvSegfault

text \<open>
  What the file takes from outside. \<open>VNUMDDC\<close>, \<open>sizeof_sockaddr_in\<close> and
  \<open>AnalyseDDCHeader\<close> are declared in headers and files that are not part of OutDDCIQ.c; they
  are parameters. \<open>AnalyseDDCHeader r c\<close> returns the frame length and the array \<open>DDCCounts\<close>
  it leaves behind when called with rate word \<open>r\<close> on the array \<open>c\<close>.
\<close>

record env =
  VNUMDDC :: nat
  sizeof_sockaddr_in :: nat
  AnalyseDDCHeader :: "u32 \<Rightarrow> (nat \<Rightarrow> u32) \<Rightarrow> u32 \<times> (nat \<Rightarrow> u32)"
  alloc_fails :: bool
  open_result :: int
  reply_addr :: sockaddr_in
  SDRActive :: "nat \<Rightarrow> bool"
  change_port :: "nat \<Rightarrow> nat \<Rightarrow> bool"
  sendmsg_result :: "nat \<Rightarrow> int"
  fifo_monitor :: "nat \<Rightarrow> fifo_reading"
  dma_data :: "nat \<Rightarrow> buffer"

record state =
  DMAReadBuffer :: buffer
  DMAReadPtr :: int
  DMAHeadPtr :: int
  DMABasePtr :: int
  UDPBuffer :: "nat \<Rightarrow> buffer"
  DDCSampleBuffer :: "nat \<Rightarrow> buffer"
  IQReadPtr :: "nat \<Rightarrow> int"
  IQHeadPtr :: "nat \<Rightarrow> int"
  IQBasePtr :: "nat \<Rightarrow> int"
  GlobalFIFOOverflows :: u32
  Active :: "nat \<Rightarrow> bool"
  DMATransferSize :: u32
  InitError :: bool
  Depth :: u32
  FIFOOverThreshold :: bool
  DestAddr :: "nat \<Rightarrow> sockaddr_in"
  iovecinst :: "nat \<Rightarrow> iovec"
  datagram :: "nat \<Rightarrow> msghdr"
  SequenceCounter :: "nat \<Rightarrow> u32"
  FrameLength :: u32
  DDCCounts :: "nat \<Rightarrow> u32"
  PrevRateWord :: u32
  HeaderFound :: bool
  StartupCount :: u32
  trace :: "event list"
  n_sdr :: nat
  n_idle :: nat
  n_send :: nat
  n_fifo :: nat
  n_dma :: nat

subsection \<open>The packetizer: lines 179 to 196\<close>

text \<open>
  The bytes \<open>sendmsg\<close> gathers for a message header: the \<open>msg_iovlen\<close> vectors starting at
  \<open>msg_iov\<close>, each \<open>iov_len\<close> bytes from \<open>iov_base\<close>.
\<close>

definition gather :: "state \<Rightarrow> msghdr \<Rightarrow> byte list" where
  "gather s h =
     concat (map (\<lambda>i. map (\<lambda>k. UDPBuffer s (iov_base (iovecinst s i)) (int k))
                           [0..<iov_len (iovecinst s i)])
                 [msg_iov h..<msg_iov h + msg_iovlen h])"

text \<open>One pass of the body of the \<open>while\<close> loop of line 179.\<close>

definition emit_packet :: "env \<Rightarrow> nat \<Rightarrow> state \<Rightarrow> state" where
  "emit_packet e DDC s =
     (let b0 = store_u32 (UDPBuffer s DDC) 0 (htonl (SequenceCounter s DDC));
          s1 = s\<lparr>SequenceCounter := (SequenceCounter s)(DDC := SequenceCounter s DDC + 1)\<rparr>;
          b1 = memset b0 4 0 8;
          b2 = store_u16 b1 12 (htons 24);
          b3 = store_u32 b2 14 (ucast (htons (of_nat VIQSAMPLESPERFRAME)));
          b4 = memcpy b3 16 (DDCSampleBuffer s1 DDC) (IQReadPtr s1 DDC) VIQBYTESPERFRAME;
          s2 = s1\<lparr>UDPBuffer := (UDPBuffer s1)(DDC := b4)\<rparr>;
          s3 = s2\<lparr>IQReadPtr := (IQReadPtr s2)(DDC := IQReadPtr s2 DDC + int VIQBYTESPERFRAME)\<rparr>;
          Error = sendmsg_result e (n_send s3);
          s4 = s3\<lparr>trace := trace s3 @ [EvSendmsg DDC (datagram s3 DDC) (gather s3 (datagram s3 DDC))],
                   n_send := Suc (n_send s3)\<rparr>;
          s5 = (if StartupCount s4 \<noteq> 0 then s4\<lparr>StartupCount := StartupCount s4 - 1\<rparr> else s4)
      in if Error = - 1 then s5\<lparr>InitError := True\<rparr> else s5)"

function drain_ddc :: "env \<Rightarrow> nat \<Rightarrow> state \<Rightarrow> state" where
  "drain_ddc e DDC s =
     (if IQHeadPtr s DDC - IQReadPtr s DDC > int VIQBYTESPERFRAME
      then drain_ddc e DDC (emit_packet e DDC s)
      else s)"
  by pat_completeness auto
termination
  by (relation "measure (\<lambda>(e, DDC, s). nat (IQHeadPtr s DDC - IQReadPtr s DDC))")
     (auto simp: emit_packet_def Let_def VIQBYTESPERFRAME_def VIQSAMPLESPERFRAME_def)

declare drain_ddc.simps [simp del]

subsection \<open>Compaction of a per-DDC ring: lines 197 to 208\<close>

text \<open>
  \<open>ResidueBytes\<close> is a \<open>uint32_t\<close>: the pointer difference is truncated to 32 bits. \<open>memcpy\<close>
  reads its source as it was before the call (the C function is undefined on overlapping
  regions).
\<close>

definition compact_iq :: "nat \<Rightarrow> state \<Rightarrow> state" where
  "compact_iq DDC s =
     (let ResidueBytes = (word_of_int (IQHeadPtr s DDC - IQReadPtr s DDC) :: u32)
      in if IQReadPtr s DDC > IQBasePtr s DDC
         then (let s1 = (if ResidueBytes \<noteq> 0
                         then s\<lparr>DDCSampleBuffer := (DDCSampleBuffer s)
                                   (DDC := memcpy (DDCSampleBuffer s DDC) (IQBasePtr s DDC - uint ResidueBytes)
                                             (DDCSampleBuffer s DDC) (IQReadPtr s DDC) (unat ResidueBytes)),
                                 IQReadPtr := (IQReadPtr s)(DDC := IQBasePtr s DDC - uint ResidueBytes)\<rparr>
                         else s\<lparr>IQReadPtr := (IQReadPtr s)(DDC := IQBasePtr s DDC)\<rparr>)
               in s1\<lparr>IQHeadPtr := (IQHeadPtr s1)(DDC := IQBasePtr s1 DDC)\<rparr>)
         else s)"

text \<open>The \<open>for\<close> loop of lines 177 to 209.\<close>

definition drain_all :: "env \<Rightarrow> state \<Rightarrow> state" where
  "drain_all e s = fold (\<lambda>DDC s. compact_iq DDC (drain_ddc e DDC s)) [0..<VNUMDDC e] s"

subsection \<open>FIFO monitor and burst size: lines 210 to 237\<close>

definition usleep :: "nat \<Rightarrow> state \<Rightarrow> state" where
  "usleep n s = s\<lparr>trace := trace s @ [EvUsleep n]\<rparr>"

definition ReadFIFOMonitorChannel :: "env \<Rightarrow> state \<Rightarrow> u32 \<times> state" where
  "ReadFIFOMonitorChannel e s =
     (let r = fifo_monitor e (n_fifo s)
      in (rd_value r, s\<lparr>FIFOOverThreshold := rd_overthreshold r, n_fifo := Suc (n_fifo s),
                        trace := trace s @ [EvReadFIFOMonitorChannel]\<rparr>))"

text \<open>Lines 210 to 216, and again 220 to 226: read the depth, latch an over-threshold.\<close>

definition poll_fifo :: "env \<Rightarrow> state \<Rightarrow> state" where
  "poll_fifo e s =
     (let (d, s1) = ReadFIFOMonitorChannel e s;
          s2 = s1\<lparr>Depth := d\<rparr>
      in if StartupCount s2 = 0 \<and> FIFOOverThreshold s2
         then s2\<lparr>GlobalFIFOOverflows := GlobalFIFOOverflows s2 OR 1\<rparr>
         else s2)"

text \<open>
  A loop that may run forever takes fuel, one unit for each test of its condition. A run that
  uses its fuel up stops where it is: \<open>OutOfFuel s\<close> holds the state reached, so what is
  proved of the state of every result holds at every loop head of a run that never ends.
  \<open>ProcessExit\<close> is the end of the whole process, by a call of \<open>exit\<close> or by a fatal
  signal; \<open>Continue\<close> is the normal end.
\<close>

datatype result = OutOfFuel state | ProcessExit state | Continue state

fun state_of :: "result \<Rightarrow> state" where
  "state_of (OutOfFuel s) = s"
| "state_of (ProcessExit s) = s"
| "state_of (Continue s) = s"

fun and_then :: "result \<Rightarrow> (state \<Rightarrow> result) \<Rightarrow> result" where
  "and_then (Continue s) k = k s"
| "and_then (ProcessExit s) k = ProcessExit s"
| "and_then (OutOfFuel s) k = OutOfFuel s"

fun wait_fifo :: "env \<Rightarrow> nat \<Rightarrow> state \<Rightarrow> result" where
  "wait_fifo e 0 s = OutOfFuel s"
| "wait_fifo e (Suc f) s =
     (if Depth s < DMATransferSize s div 8
      then wait_fifo e f (poll_fifo e (usleep 500 s))
      else Continue s)"

definition select_transfer_size :: "state \<Rightarrow> state" where
  "select_transfer_size s =
     s\<lparr>DMATransferSize :=
         (if Depth s > 4096 then 32768
          else if Depth s > 2048 then 16384
          else if Depth s > 1024 then 8192
          else 4096)\<rparr>"

text \<open>Lines 236 and 237: the burst lands at the head, the head moves by the burst size.\<close>

definition dma_read :: "env \<Rightarrow> state \<Rightarrow> state" where
  "dma_read e s =
     s\<lparr>DMAReadBuffer := memcpy (DMAReadBuffer s) (DMAHeadPtr s) (dma_data e (n_dma s)) 0
                           (unat (DMATransferSize s)),
       n_dma := Suc (n_dma s),
       trace := trace s @ [EvDMAReadFromFPGA (DMAHeadPtr s) (DMATransferSize s)],
       DMAHeadPtr := DMAHeadPtr s + uint (DMATransferSize s)\<rparr>"

subsection \<open>Sync acquisition: lines 238 to 252\<close>

text \<open>\<open>Cntr\<close> is a \<open>uint32_t\<close> and \<open>Cntr += 8\<close> wraps, so the scan takes fuel.\<close>

fun sync_scan :: "nat \<Rightarrow> u32 \<Rightarrow> state \<Rightarrow> result" where
  "sync_scan 0 Cntr s = OutOfFuel s"
| "sync_scan (Suc f) Cntr s =
     (if Cntr < word_of_int (DMAHeadPtr s - DMAReadPtr s)
      then (if DMAReadBuffer s (DMAReadPtr s + uint Cntr + 7) = 0x80
            then Continue (s\<lparr>HeaderFound := True, DMAReadPtr := DMAReadPtr s + uint Cntr\<rparr>)
            else sync_scan f (Cntr + 8) s)
      else Continue s)"

definition exit_process :: "int \<Rightarrow> state \<Rightarrow> result" where
  "exit_process code s = ProcessExit (s\<lparr>trace := trace s @ [EvExit code]\<rparr>)"

text \<open>The process is killed by SIGSEGV.\<close>

definition segfault :: "state \<Rightarrow> result" where
  "segfault s = ProcessExit (s\<lparr>trace := trace s @ [EvSegfault]\<rparr>)"

definition acquire_sync :: "nat \<Rightarrow> state \<Rightarrow> result" where
  "acquire_sync f s =
     and_then (if \<not> HeaderFound s then sync_scan f 16 s else Continue s)
       (\<lambda>s1. if \<not> HeaderFound s1 then exit_process 1 (s1\<lparr>InitError := True\<rparr>) else Continue s1)"

subsection \<open>The frame parser: lines 253 to 297\<close>

text \<open>Lines 264 to 270: the rate word is decoded again only when it changes.\<close>

definition decode_header :: "env \<Rightarrow> state \<Rightarrow> state" where
  "decode_header e s =
     (let RateWord = load_u32 (DMAReadBuffer s) (DMAReadPtr s)
      in if RateWord \<noteq> PrevRateWord s
         then (let (fl, counts) = AnalyseDDCHeader e RateWord (DDCCounts s)
               in s\<lparr>FrameLength := fl, DDCCounts := counts, PrevRateWord := RateWord\<rparr>)
         else s)"

text \<open>
  Lines 281 to 287, for \<open>n\<close> remaining passes: three 16-bit words go from the source pointer
  to the destination pointer, a fourth source word is skipped. The result is the source
  pointer after the loop and the destination buffer.
\<close>

fun copy_samples :: "nat \<Rightarrow> buffer \<Rightarrow> int \<Rightarrow> int \<Rightarrow> buffer \<Rightarrow> int \<times> buffer" where
  "copy_samples 0 src SrcWordPtr DestWordPtr dst = (SrcWordPtr, dst)"
| "copy_samples (Suc n) src SrcWordPtr DestWordPtr dst =
     (let d1 = memcpy dst DestWordPtr src SrcWordPtr 2;
          d2 = memcpy d1 (DestWordPtr + 2) src (SrcWordPtr + 2) 2;
          d3 = memcpy d2 (DestWordPtr + 4) src (SrcWordPtr + 4) 2
      in copy_samples n src (SrcWordPtr + 8) (DestWordPtr + 6) d3)"

text \<open>Lines 277 to 289 for one DDC; the source pointer is carried from one DDC to the next.\<close>

definition copy_ddc :: "nat \<Rightarrow> int \<times> state \<Rightarrow> int \<times> state" where
  "copy_ddc DDC = (\<lambda>(SrcWordPtr, s).
     (let HdrWord = DDCCounts s DDC
      in if HdrWord \<noteq> 0
         then (let (src', buf) = copy_samples (unat HdrWord) (DMAReadBuffer s) SrcWordPtr
                                   (IQHeadPtr s DDC) (DDCSampleBuffer s DDC)
               in (src', s\<lparr>DDCSampleBuffer := (DDCSampleBuffer s)(DDC := buf),
                            IQHeadPtr := (IQHeadPtr s)(DDC := IQHeadPtr s DDC + uint (6 * HdrWord))\<rparr>))
         else (SrcWordPtr, s)))"

text \<open>Lines 273 to 291: one complete frame.\<close>

definition copy_frame :: "env \<Rightarrow> state \<Rightarrow> state" where
  "copy_frame e s =
     (let s1 = s\<lparr>DMAReadPtr := DMAReadPtr s + 8\<rparr>;
          (SrcWordPtr, s2) = fold copy_ddc [0..<VNUMDDC e] (DMAReadPtr s1, s1)
      in s2\<lparr>DMAReadPtr := DMAReadPtr s2 + uint (FrameLength s2 * 8)\<rparr>)"

text \<open>
  The \<open>while\<close> loop of line 254. \<open>DecodeByteCount\<close> does not shrink when
  \<open>(FrameLength+1) * 8\<close> wraps to 0, so the loop takes fuel.
\<close>

fun parse_frames :: "env \<Rightarrow> nat \<Rightarrow> u32 \<Rightarrow> state \<Rightarrow> result" where
  "parse_frames e 0 DecodeByteCount s = OutOfFuel s"
| "parse_frames e (Suc f) DecodeByteCount s =
     (if DecodeByteCount \<ge> 16
      then (if DMAReadBuffer s (DMAReadPtr s + 7) \<noteq> 0x80
            then exit_process 1 s
            else (let s1 = decode_header e s
                  in if DecodeByteCount \<ge> (FrameLength s1 + 1) * 8
                     then parse_frames e f (DecodeByteCount - (FrameLength s1 + 1) * 8) (copy_frame e s1)
                     else Continue s1))
      else Continue s)"

subsection \<open>Compaction of the DMA ring: lines 298 to 309\<close>

definition compact_dma :: "state \<Rightarrow> state" where
  "compact_dma s =
     (let ResidueBytes = (word_of_int (DMAHeadPtr s - DMAReadPtr s) :: u32)
      in if DMAReadPtr s > DMABasePtr s
         then (let s1 = (if ResidueBytes \<noteq> 0
                         then s\<lparr>DMAReadBuffer := memcpy (DMAReadBuffer s) (DMABasePtr s - uint ResidueBytes)
                                                   (DMAReadBuffer s) (DMAReadPtr s) (unat ResidueBytes),
                                 DMAReadPtr := DMABasePtr s - uint ResidueBytes\<rparr>
                         else s\<lparr>DMAReadPtr := DMABasePtr s\<rparr>)
               in s1\<lparr>DMAHeadPtr := DMABasePtr s1\<rparr>)
         else s)"

subsection \<open>The streaming loop: lines 175 to 310\<close>

text \<open>One pass of the body of the loop of line 175.\<close>

definition stream_iter :: "env \<Rightarrow> nat \<Rightarrow> state \<Rightarrow> result" where
  "stream_iter e f s =
     and_then (wait_fifo e f (poll_fifo e (drain_all e s)))
       (\<lambda>s1. and_then (acquire_sync f (dma_read e (select_transfer_size s1)))
         (\<lambda>s2. and_then (parse_frames e f (word_of_int (DMAHeadPtr s2 - DMAReadPtr s2)) s2)
           (\<lambda>s3. Continue (compact_dma s3))))"

definition read_SDRActive :: "env \<Rightarrow> state \<Rightarrow> bool \<times> state" where
  "read_SDRActive e s = (SDRActive e (n_sdr s), s\<lparr>n_sdr := Suc (n_sdr s)\<rparr>)"

fun streaming_loop :: "env \<Rightarrow> nat \<Rightarrow> state \<Rightarrow> result" where
  "streaming_loop e 0 s = OutOfFuel s"
| "streaming_loop e (Suc f) s =
     (if InitError s then Continue s
      else (let (active, s1) = read_SDRActive e s
            in if active then and_then (stream_iter e f s1) (streaming_loop e f)
               else Continue s1))"

subsection \<open>The driver: lines 119 to 174 and 312 to 316\<close>

definition SetRXDDCEnabled :: "bool \<Rightarrow> state \<Rightarrow> state" where
  "SetRXDDCEnabled b s = s\<lparr>trace := trace s @ [EvSetRXDDCEnabled b]\<rparr>"

text \<open>Lines 148 to 154 for one DDC: a pending port change closes and remakes the socket.\<close>

definition idle_ddc :: "env \<Rightarrow> nat \<Rightarrow> state \<Rightarrow> state" where
  "idle_ddc e DDC s =
     (if change_port e (n_idle s) DDC
      then s\<lparr>trace := trace s @ [EvCloseSocket DDC, EvMakeSocket DDC]\<rparr>
      else s)"

text \<open>The \<open>while(!SDRActive)\<close> loop of line 146.\<close>

fun idle_loop :: "env \<Rightarrow> nat \<Rightarrow> state \<Rightarrow> result" where
  "idle_loop e 0 s = OutOfFuel s"
| "idle_loop e (Suc f) s =
     (let (active, s1) = read_SDRActive e s
      in if \<not> active
         then idle_loop e f
                (usleep 100 ((fold (idle_ddc e) [0..<VNUMDDC e] s1)\<lparr>n_idle := Suc (n_idle s1)\<rparr>))
         else Continue s1)"

text \<open>Lines 161 to 170 for one DDC.\<close>

definition arm_ddc :: "env \<Rightarrow> nat \<Rightarrow> state \<Rightarrow> state" where
  "arm_ddc e DDC s =
     s\<lparr>SequenceCounter := (SequenceCounter s)(DDC := 0),
       DestAddr := (DestAddr s)(DDC := reply_addr e),
       iovecinst := (iovecinst s)(DDC := \<lparr>iov_base = DDC, iov_len = VDDCPACKETSIZE\<rparr>),
       datagram := (datagram s)
         (DDC := \<lparr>msg_name = DDC, msg_namelen = VNUMDDC e * sizeof_sockaddr_in e,
                  msg_iov = DDC, msg_iovlen = 1, msg_controllen = 0, msg_flags = 0\<rparr>)\<rparr>"

text \<open>Lines 157 to 174: the stream starts.\<close>

definition arming :: "env \<Rightarrow> state \<Rightarrow> state" where
  "arming e s =
     (let s1 = s\<lparr>StartupCount := VSTARTUPDELAY\<rparr>;
          s2 = fold (arm_ddc e) [0..<VNUMDDC e] s1;
          s3 = SetRXDDCEnabled True s2
      in s3\<lparr>HeaderFound := False\<rparr>)"

text \<open>The \<open>while(!InitError)\<close> loop of line 144.\<close>

fun main_loop :: "env \<Rightarrow> nat \<Rightarrow> state \<Rightarrow> result" where
  "main_loop e 0 s = OutOfFuel s"
| "main_loop e (Suc f) s =
     (if InitError s then Continue s
      else and_then (idle_loop e f s)
             (\<lambda>s1. and_then (streaming_loop e f (arming e s1)) (main_loop e f)))"

text \<open>
  \<open>CreateDynamicMemory\<close>, lines 55 to 78. \<open>alloc_fails\<close> says that \<open>posix_memalign\<close> left
  \<open>DMAReadBuffer\<close> null. The function then sets \<open>Result\<close>, and line 68 goes on to clear
  \<open>DMABufferSize\<close> bytes from the null pointer on: that write is undefined in C and a
  segmentation fault on the Linux host, so the function does not return. The model stops
  there with \<open>Inl\<close> of the state reached. Otherwise it returns \<open>Inr\<close> of \<open>Result\<close>, which is
  then false, and of the state. The results of \<open>malloc\<close> are not checked by the source and are
  taken to be non-null.
\<close>

definition CreateDynamicMemory :: "env \<Rightarrow> state \<Rightarrow> state + bool \<times> state" where
  "CreateDynamicMemory e s =
     (let s1 = s\<lparr>DMAReadPtr := VBASE, DMAHeadPtr := VBASE, DMABasePtr := VBASE\<rparr>;
          Result = alloc_fails e
      in if alloc_fails e then Inl s1
         else (let s2 = s1\<lparr>DMAReadBuffer := memset (DMAReadBuffer s1) 0 0 VDMABUFFERSIZE\<rparr>
               in Inr (Result,
                       fold (\<lambda>DDC s. s\<lparr>IQReadPtr := (IQReadPtr s)(DDC := VBASE),
                                        IQHeadPtr := (IQHeadPtr s)(DDC := VBASE),
                                        IQBasePtr := (IQBasePtr s)(DDC := VBASE)\<rparr>)
                            [0..<VNUMDDC e] s2)))"

text \<open>Lines 119 to 142.\<close>

definition thread_init :: "env \<Rightarrow> state \<Rightarrow> result" where
  "thread_init e s =
     (let s1 = s\<lparr>PrevRateWord := 0xFFFFFFFF, DMATransferSize := VDMATRANSFERSIZE\<rparr>
      in case CreateDynamicMemory e s1 of
           Inl s2 \<Rightarrow> segfault s2
         | Inr (err, s2) \<Rightarrow>
             (let s3 = s2\<lparr>InitError := err, trace := trace s2 @ [EvOpenDevice]\<rparr>;
                  s4 = (if open_result e < 0 then s3\<lparr>InitError := True\<rparr> else s3);
                  s5 = fold (\<lambda>DDC s. s\<lparr>SequenceCounter := (SequenceCounter s)(DDC := 0),
                                        Active := (Active s)(DDC := True)\<rparr>) [0..<VNUMDDC e] s4;
                  s6 = usleep 1000 (SetRXDDCEnabled False s5);
                  s7 = s6\<lparr>trace := trace s6 @ [EvSetupFIFOMonitorChannel, EvResetDMAStreamFIFO]\<rparr>;
                  (RegisterValue, s8) = ReadFIFOMonitorChannel e s7
              in Continue (s8\<lparr>Depth := 0\<rparr>)))"

text \<open>Lines 312 to 316.\<close>

definition shutdown :: "state \<Rightarrow> state" where
  "shutdown s =
     s\<lparr>trace := trace s @ [EvCloseSocket 0, EvFreeDynamicMemory], Active := (Active s)(0 := False)\<rparr>"

text \<open>The thread function.\<close>

definition OutgoingDDCIQ :: "env \<Rightarrow> nat \<Rightarrow> state \<Rightarrow> result" where
  "OutgoingDDCIQ e f s =
     and_then (thread_init e s)
       (\<lambda>s0. and_then (main_loop e f s0) (\<lambda>s1. Continue (shutdown s1)))"

subsection \<open>Predicates and concrete inputs used in the statements\<close>

text \<open>
  What lines 163 to 170 leave in \<open>datagram[DDC]\<close> and \<open>iovecinst[DDC]\<close>: one vector of
  \<open>VDDCPACKETSIZE\<close> bytes at \<open>UDPBuffer[DDC]\<close>.
\<close>

definition wired :: "nat \<Rightarrow> state \<Rightarrow> bool" where
  "wired DDC s \<longleftrightarrow>
     msg_iov (datagram s DDC) = DDC \<and> msg_iovlen (datagram s DDC) = 1 \<and>
     iov_base (iovecinst s DDC) = DDC \<and> iov_len (iovecinst s DDC) = VDDCPACKETSIZE"

text \<open>The layout of a datagram with sequence number \<open>sq\<close> and payload read from \<open>ring\<close> at \<open>rd\<close>.\<close>

definition packet_layout :: "byte list \<Rightarrow> u32 \<Rightarrow> buffer \<Rightarrow> int \<Rightarrow> bool" where
  "packet_layout p sq ring rd \<longleftrightarrow>
     length p = 1444 \<and> take 4 p = be_bytes32 sq \<and> (\<forall>i\<in>{4..<12}. p ! i = 0) \<and>
     p ! 12 = 0 \<and> p ! 13 = 24 \<and> p ! 14 = 0 \<and> p ! 15 = 238 \<and>
     (\<forall>j<1428. p ! (16 + j) = ring (rd + int j))"

text \<open>An environment with two DDCs and a state with every field zero, for concrete runs.\<close>

definition env0 :: env where
  "env0 = \<lparr>VNUMDDC = 2, sizeof_sockaddr_in = 16, AnalyseDDCHeader = (\<lambda>r c. (600, c)),
           alloc_fails = False, open_result = 3, reply_addr = \<lparr>sin_port = 1024, sin_addr = 0\<rparr>,
           SDRActive = (\<lambda>n. n < 2), change_port = (\<lambda>n d. False), sendmsg_result = (\<lambda>n. 1444),
           fifo_monitor = (\<lambda>n. \<lparr>rd_value = 512, rd_overflow = False, rd_overthreshold = False,
                                 rd_underflow = False, rd_current = 512\<rparr>),
           dma_data = (\<lambda>n a. 0)\<rparr>"

definition state0 :: state where
  "state0 = \<lparr>DMAReadBuffer = (\<lambda>a. 0), DMAReadPtr = 0, DMAHeadPtr = 0, DMABasePtr = 0,
             UDPBuffer = (\<lambda>d a. 0), DDCSampleBuffer = (\<lambda>d a. 0),
             IQReadPtr = (\<lambda>d. 0), IQHeadPtr = (\<lambda>d. 0), IQBasePtr = (\<lambda>d. 0),
             GlobalFIFOOverflows = 0, Active = (\<lambda>d. False), DMATransferSize = 0,
             InitError = False, Depth = 0, FIFOOverThreshold = False,
             DestAddr = (\<lambda>d. \<lparr>sin_port = 0, sin_addr = 0\<rparr>),
             iovecinst = (\<lambda>d. \<lparr>iov_base = 0, iov_len = 0\<rparr>),
             datagram = (\<lambda>d. \<lparr>msg_name = 0, msg_namelen = 0, msg_iov = 0, msg_iovlen = 0,
                                msg_controllen = 0, msg_flags = 0\<rparr>),
             SequenceCounter = (\<lambda>d. 0), FrameLength = 0, DDCCounts = (\<lambda>d. 0),
             PrevRateWord = 0, HeaderFound = False, StartupCount = 0, trace = [],
             n_sdr = 0, n_idle = 0, n_send = 0, n_fifo = 0, n_dma = 0\<rparr>"

text \<open>Every \<open>sendmsg\<close> fails; the ring of DDC 0 holds two frames and one byte.\<close>

definition env_sendfail :: env where
  "env_sendfail = env0\<lparr>sendmsg_result := (\<lambda>n. - 1)\<rparr>"

definition state_two_frames :: state where
  "state_two_frames = (arm_ddc env0 0 state0)\<lparr>IQHeadPtr := (\<lambda>d. 2857)\<rparr>"

text \<open>
  The calls made between two packets: sleeping, reading the FIFO monitor, the DMA read, and
  \<open>exit\<close>. A step from \<open>s\<close> to \<open>s'\<close> is quiet when it makes only such calls and leaves
  the packetizer's variables alone; it may latch an over-threshold only when the startup count
  is zero, it may set the burst size only to one of its four values, and it does not clear
  \<open>InitError\<close>.
\<close>

fun quiet_event :: "event \<Rightarrow> bool" where
  "quiet_event (EvUsleep n) = True"
| "quiet_event EvReadFIFOMonitorChannel = True"
| "quiet_event (EvDMAReadFromFPGA p n) = True"
| "quiet_event (EvExit c) = True"
| "quiet_event ev = False"

definition quiet :: "state \<Rightarrow> state \<Rightarrow> bool" where
  "quiet s s' \<longleftrightarrow>
     SequenceCounter s' = SequenceCounter s \<and> StartupCount s' = StartupCount s \<and>
     n_send s' = n_send s \<and> datagram s' = datagram s \<and> iovecinst s' = iovecinst s \<and>
     Active s' = Active s \<and>
     (StartupCount s \<noteq> 0 \<longrightarrow> GlobalFIFOOverflows s' = GlobalFIFOOverflows s) \<and>
     DMATransferSize s' \<in> {DMATransferSize s, 4096, 8192, 16384, 32768} \<and>
     (InitError s \<longrightarrow> InitError s') \<and>
     (\<exists>es. trace s' = trace s @ es \<and> list_all quiet_event es)"

text \<open>The datagrams handed to \<open>sendmsg\<close> on the socket of one DDC, in the order of a trace.\<close>

fun sent_on :: "nat \<Rightarrow> event list \<Rightarrow> byte list list" where
  "sent_on d [] = []"
| "sent_on d (EvSendmsg d' h p # es) = (if d' = d then p # sent_on d es else sent_on d es)"
| "sent_on d (ev # es) = sent_on d es"

text \<open>Every reading of the FIFO monitor is over the threshold.\<close>

definition env_over :: env where
  "env_over = env0\<lparr>fifo_monitor := (\<lambda>n. \<lparr>rd_value = 512, rd_overflow = False,
                     rd_overthreshold = True, rd_underflow = False, rd_current = 512\<rparr>)\<rparr>"

text \<open>
  The calls the loop of line 144 can make: everything but opening the device, setting up and
  resetting the FIFO, freeing the buffers and \<open>SetRXDDCEnabled(false)\<close>; nor does it
  end in a segmentation fault.
\<close>

fun loop_event :: "event \<Rightarrow> bool" where
  "loop_event (EvSetRXDDCEnabled b) = b"
| "loop_event EvFreeDynamicMemory = False"
| "loop_event EvOpenDevice = False"
| "loop_event EvSetupFIFOMonitorChannel = False"
| "loop_event EvResetDMAStreamFIFO = False"
| "loop_event EvSegfault = False"
| "loop_event ev = True"

definition loop_ext :: "state \<Rightarrow> state \<Rightarrow> bool" where
  "loop_ext s s' \<longleftrightarrow> Active s' = Active s \<and> (\<exists>es. trace s' = trace s @ es \<and> list_all loop_event es)"



text \<open>The DMA delivers the byte 0x80 everywhere: every slot looks like a header word.\<close>

definition env1 :: env where
  "env1 = env0\<lparr>dma_data := (\<lambda>n a. 0x80)\<rparr>"



text \<open>The number of 8-byte slots of a frame that belong to the DDCs before \<open>d\<close>.\<close>

definition slots_before :: "(nat \<Rightarrow> u32) \<Rightarrow> nat \<Rightarrow> nat" where
  "slots_before c d = (\<Sum>i<d. unat (c i))"

text \<open>
  A frame of two slots, one for each DDC, in a DMA buffer full of 0x80 bytes.
\<close>

definition env_frame :: env where
  "env_frame = env0\<lparr>AnalyseDDCHeader := (\<lambda>r c. (2, \<lambda>d. 1))\<rparr>"

definition state_frame :: state where
  "state_frame = state0\<lparr>DMAReadBuffer := (\<lambda>a. 0x80), PrevRateWord := 0xFFFFFFFF\<rparr>"

text \<open>
  The state in which the first pass of the streaming loop starts when the thread runs in
  \<open>env1\<close> from \<open>state0\<close>.
\<close>

definition state_armed :: state where
  "state_armed = (arming env1 ((state_of (thread_init env1 state0))\<lparr>n_sdr := 1\<rparr>))\<lparr>n_sdr := 2\<rparr>"

text \<open>
  The pointers of a ring. A buffer starts \<open>VBASE\<close> bytes below the base pointer of its ring
  and is \<open>VDMABUFFERSIZE\<close> bytes long; offsets are counted from the start of the buffer. The
  ring is in order when the read pointer lies in the buffer, at or below the head, and the
  head is at most the end of the buffer.
\<close>

definition ring_ok :: "int \<Rightarrow> int \<Rightarrow> int \<Rightarrow> bool" where
  "ring_ok base read head \<longleftrightarrow>
     base - VBASE \<le> read \<and> read \<le> head \<and> head \<le> base - VBASE + int VDMABUFFERSIZE"

definition rings_ok :: "env \<Rightarrow> state \<Rightarrow> bool" where
  "rings_ok e s \<longleftrightarrow>
     ring_ok (DMABasePtr s) (DMAReadPtr s) (DMAHeadPtr s) \<and>
     (\<forall>d<VNUMDDC e. ring_ok (IQBasePtr s d) (IQReadPtr s d) (IQHeadPtr s d))"

text \<open>
  Frames that fit the rings: a frame, header word included, is at most 4096 bytes long, the
  smallest burst, and no DDC has more samples in a frame than the frame has slots. This is
  asked of every result of \<open>AnalyseDDCHeader\<close> and of the frame length and counts the parser
  holds.
\<close>

definition decoder_ok :: "env \<Rightarrow> bool" where
  "decoder_ok e \<longleftrightarrow>
     (\<forall>r c. unat (fst (AnalyseDDCHeader e r c)) < 512 \<and>
            (\<forall>d<VNUMDDC e. unat (snd (AnalyseDDCHeader e r c) d) \<le> unat (fst (AnalyseDDCHeader e r c))))"

definition frame_ok :: "env \<Rightarrow> state \<Rightarrow> bool" where
  "frame_ok e s \<longleftrightarrow>
     unat (FrameLength s) < 512 \<and> (\<forall>d<VNUMDDC e. unat (DDCCounts s d) \<le> unat (FrameLength s))"

text \<open>
  Where the pointers are at three places of a pass of the streaming loop. At line 177 and
  between two packets of the drain loops (\<open>rings_drain\<close>) the DMA ring has been compacted:
  its head is at the base and its residue, less than 4096 bytes, lies below the base; the
  ring of a DDC holds what the parser left. From line 210 to line 235 (\<open>rings_wait\<close>) the
  ring of every DDC has been drained, too: it holds at most 1428 bytes, and they end at most
  1428 bytes above the base. From line 237 to line 298 (\<open>rings_parse\<close>) the DMA ring holds
  the residue and one burst, and the head of the ring of a DDC has moved by at most three
  quarters of what the parser has consumed, six bytes for each slot of eight.
\<close>

definition rings_drain :: "env \<Rightarrow> state \<Rightarrow> bool" where
  "rings_drain e s \<longleftrightarrow>
     frame_ok e s \<and> DMABasePtr s = VBASE \<and> DMAHeadPtr s = VBASE \<and>
     0 < DMAReadPtr s \<and> DMAReadPtr s \<le> VBASE \<and>
     (\<forall>d<VNUMDDC e. IQBasePtr s d = VBASE \<and> VBASE - 1428 \<le> IQReadPtr s d \<and>
                     IQReadPtr s d \<le> IQHeadPtr s d \<and> IQHeadPtr s d \<le> VBASE + 29076)"

definition iq_drained :: "state \<Rightarrow> nat \<Rightarrow> bool" where
  "iq_drained s d \<longleftrightarrow>
     IQBasePtr s d = VBASE \<and> VBASE - 1428 \<le> IQReadPtr s d \<and> IQReadPtr s d \<le> VBASE \<and>
     IQReadPtr s d \<le> IQHeadPtr s d \<and> IQHeadPtr s d \<le> IQReadPtr s d + 1428"

definition rings_wait :: "env \<Rightarrow> state \<Rightarrow> bool" where
  "rings_wait e s \<longleftrightarrow>
     frame_ok e s \<and> DMABasePtr s = VBASE \<and> DMAHeadPtr s = VBASE \<and>
     0 < DMAReadPtr s \<and> DMAReadPtr s \<le> VBASE \<and> (\<forall>d<VNUMDDC e. iq_drained s d)"

definition rings_parse :: "env \<Rightarrow> state \<Rightarrow> bool" where
  "rings_parse e s \<longleftrightarrow>
     frame_ok e s \<and> DMABasePtr s = VBASE \<and> 0 < DMAReadPtr s \<and> DMAReadPtr s \<le> DMAHeadPtr s \<and>
     VBASE + 4096 \<le> DMAHeadPtr s \<and> DMAHeadPtr s \<le> VBASE + 32768 \<and>
     (\<forall>d<VNUMDDC e. IQBasePtr s d = VBASE \<and> VBASE - 1428 \<le> IQReadPtr s d \<and>
                     IQReadPtr s d \<le> IQHeadPtr s d \<and>
                     4 * (IQHeadPtr s d - (VBASE + 1428)) \<le> 3 * DMAReadPtr s)"

text \<open>Two states that agree on the pointers of the rings and on the frame the parser holds.\<close>

definition same_rings :: "state \<Rightarrow> state \<Rightarrow> bool" where
  "same_rings s s' \<longleftrightarrow>
     DMABasePtr s' = DMABasePtr s \<and> DMAReadPtr s' = DMAReadPtr s \<and> DMAHeadPtr s' = DMAHeadPtr s \<and>
     IQBasePtr s' = IQBasePtr s \<and> IQReadPtr s' = IQReadPtr s \<and> IQHeadPtr s' = IQHeadPtr s \<and>
     FrameLength s' = FrameLength s \<and> DDCCounts s' = DDCCounts s"

text \<open>
  Invariants of a stream, relative to the state \<open>s0\<close> that arming left: the startup count
  against the number of packets sent, the sequence numbers of the datagrams sent on each DDC,
  and the message headers passed to \<open>sendmsg\<close>.
\<close>

definition startup_inv :: "state \<Rightarrow> state \<Rightarrow> bool" where
  "startup_inv s0 s \<longleftrightarrow>
     n_send s0 \<le> n_send s \<and> unat (StartupCount s) = 100 - (n_send s - n_send s0) \<and>
     (n_send s - n_send s0 < 100 \<longrightarrow> GlobalFIFOOverflows s = GlobalFIFOOverflows s0)"

definition seq_inv :: "env \<Rightarrow> state \<Rightarrow> state \<Rightarrow> bool" where
  "seq_inv e s0 s \<longleftrightarrow>
     (\<forall>d<VNUMDDC e. wired d s) \<and>
     (\<exists>es. trace s = trace s0 @ es \<and>
        (\<forall>d<VNUMDDC e. SequenceCounter s d = of_nat (length (sent_on d es)) \<and>
           (\<forall>k<length (sent_on d es). take 4 (sent_on d es ! k) = be_bytes32 (of_nat k))))"

definition hdr_inv :: "state \<Rightarrow> state \<Rightarrow> bool" where
  "hdr_inv s0 s \<longleftrightarrow>
     datagram s = datagram s0 \<and>
     (\<exists>es. trace s = trace s0 @ es \<and> (\<forall>d h p. EvSendmsg d h p \<in> set es \<longrightarrow> h = datagram s0 d))"

text \<open>
  The latch of the fatal error. From state \<open>s\<close> to state \<open>s'\<close> no call of \<open>sendmsg\<close> was
  undone, and \<open>InitError\<close> is set in \<open>s'\<close> if it was set in \<open>s\<close> or if one of the calls of
  \<open>sendmsg\<close> made in between returned -1.
\<close>

definition latched :: "env \<Rightarrow> state \<Rightarrow> state \<Rightarrow> bool" where
  "latched e s s' \<longleftrightarrow>
     n_send s \<le> n_send s' \<and>
     (InitError s \<or> (\<exists>k. n_send s \<le> k \<and> k < n_send s' \<and> sendmsg_result e k = - 1) \<longrightarrow> InitError s')"

text \<open>
  A stream whose sends fail. The DMA delivers 0x80 bytes, \<open>AnalyseDDCHeader\<close> finds frames of
  239 slots, all of them for DDC 0, \<open>SDRActive\<close> is always true and every \<open>sendmsg\<close> returns
  -1.
\<close>

definition env_senderr :: env where
  "env_senderr = env1\<lparr>AnalyseDDCHeader := (\<lambda>r c. (239, \<lambda>d. if d = 0 then 239 else 0)),
                      SDRActive := (\<lambda>n. True), sendmsg_result := (\<lambda>n. - 1)\<rparr>"

text \<open>
  Three states of the run of the thread in \<open>env_senderr\<close> from \<open>state0\<close>: where the first
  pass of the streaming loop starts, where the second pass starts, and where the second pass
  has made its DMA read.
\<close>

definition state_stream :: state where
  "state_stream =
     (arming env_senderr ((state_of (thread_init env_senderr state0))\<lparr>n_sdr := 1\<rparr>))\<lparr>n_sdr := 2\<rparr>"

definition state_packets :: state where
  "state_packets = (state_of (stream_iter env_senderr 4 state_stream))\<lparr>n_sdr := 3\<rparr>"

definition state_fill :: state where
  "state_fill =
     dma_read env_senderr
       (select_transfer_size (poll_fifo env_senderr (drain_all env_senderr state_packets)))"

section \<open>Properties\<close>

subsection \<open>The packetizer\<close>

lemma mask_FF000000: "(0xFF000000::u32) = push_bit 24 (mask 8)" by (simp add: mask_eq_exp_minus_1)
lemma mask_FF0000: "(0xFF0000::u32) = push_bit 16 (mask 8)" by (simp add: mask_eq_exp_minus_1)
lemma mask_FF00: "(0xFF00::u32) = push_bit 8 (mask 8)" by (simp add: mask_eq_exp_minus_1)
lemma mask_FF: "(0xFF::u32) = mask 8" by (simp add: mask_eq_exp_minus_1)

lemma le_bytes32_htonl: "le_bytes32 (htonl x) = be_bytes32 x"
  unfolding le_bytes32_def htonl_def be_bytes32_def mask_FF000000 mask_FF0000 mask_FF00 mask_FF
  apply simp
  apply (intro conjI bit_word_eqI)
     apply (auto simp add: bit_simps)
  done

lemma le_bytes16_htons_24: "le_bytes16 (htons 24) = [0, 24]"
  by (simp add: le_bytes16_def htons_def)

lemma le_bytes32_htons_238: "le_bytes32 (ucast (htons 238)) = [0, 238, 0, 0]"
  by (simp add: le_bytes32_def htons_def)

lemma length_be_bytes32: "length (be_bytes32 w) = 4" by (simp add: be_bytes32_def)

lemma packet_buffer:
  fixes b :: buffer and sq :: u32 and ring :: buffer and rd :: int
  defines "b4 \<equiv> memcpy (store_u32 (store_u16 (memset (store_u32 b 0 (htonl sq)) 4 0 8) 12 (htons 24)) 14
                   (ucast (htons (of_nat VIQSAMPLESPERFRAME)))) 16 ring rd VIQBYTESPERFRAME"
  shows "packet_layout (map (\<lambda>k. b4 (int k)) [0..<VDDCPACKETSIZE]) sq ring rd"
proof -
  have b4: "b4 a = (if 16 \<le> a \<and> a < 1444 then ring (rd + (a - 16))
                   else if a = 14 then 0 else if a = 15 then 238
                   else if a = 12 then 0 else if a = 13 then 24
                   else if 4 \<le> a \<and> a < 12 then 0
                   else if 0 \<le> a \<and> a < 4 then be_bytes32 sq ! nat a else b a)" for a
    unfolding b4_def
    by (auto simp: memcpy_def store_u32_def store_u16_def store_bytes_def memset_def
        le_bytes32_htonl le_bytes16_htons_24 le_bytes32_htons_238 length_be_bytes32
        VIQBYTESPERFRAME_def VIQSAMPLESPERFRAME_def nth_Cons')
  have "take 4 (map (\<lambda>k. b4 (int k)) [0..<1444]) = map (\<lambda>k. b4 (int k)) [0..<4]"
    by (simp add: take_map)
  also have "\<dots> = be_bytes32 sq"
    by (rule nth_equalityI) (auto simp: length_be_bytes32 b4)
  finally have t: "take 4 (map (\<lambda>k. b4 (int k)) [0..<1444]) = be_bytes32 sq" .
  show ?thesis
    unfolding packet_layout_def VDDCPACKETSIZE_def
    using t by (auto simp: b4)
qed


lemma emit_packet_frame:
  "IQHeadPtr (emit_packet e d s) = IQHeadPtr s"
  "IQReadPtr (emit_packet e d s) = (IQReadPtr s)(d := IQReadPtr s d + 1428)"
  "SequenceCounter (emit_packet e d s) = (SequenceCounter s)(d := SequenceCounter s d + 1)"
  "DDCSampleBuffer (emit_packet e d s) = DDCSampleBuffer s"
  "datagram (emit_packet e d s) = datagram s"
  "iovecinst (emit_packet e d s) = iovecinst s"
  "IQBasePtr (emit_packet e d s) = IQBasePtr s"
  by (simp_all add: emit_packet_def Let_def VIQBYTESPERFRAME_def VIQSAMPLESPERFRAME_def)

lemma wired_emit_packet: "wired d s \<Longrightarrow> wired d (emit_packet e d' s)"
  by (simp add: wired_def emit_packet_frame)

lemma emit_packet_trace:
  assumes "wired d s"
  shows "\<exists>p. trace (emit_packet e d s) = trace s @ [EvSendmsg d (datagram s d) p] \<and>
             packet_layout p (SequenceCounter s d) (DDCSampleBuffer s d) (IQReadPtr s d)"
  using assms packet_buffer [of "UDPBuffer s d" "SequenceCounter s d" "DDCSampleBuffer s d" "IQReadPtr s d"]
  by (simp add: emit_packet_def Let_def gather_def wired_def)



lemma drain_ddc_stop: "\<not> IQHeadPtr s d - IQReadPtr s d > 1428 \<Longrightarrow> drain_ddc e d s = s"
  by (subst drain_ddc.simps) (simp add: VIQBYTESPERFRAME_def VIQSAMPLESPERFRAME_def)

lemma drain_ddc_step: "IQHeadPtr s d - IQReadPtr s d > 1428 \<Longrightarrow> drain_ddc e d s = drain_ddc e d (emit_packet e d s)"
  by (subst drain_ddc.simps) (simp add: VIQBYTESPERFRAME_def VIQSAMPLESPERFRAME_def)

lemma drain_ddc_packets:
  assumes "wired d s"
  shows "\<exists>pkts. trace (drain_ddc e d s) = trace s @ map (EvSendmsg d (datagram s d)) pkts \<and>
           (\<forall>k. k < length pkts \<longleftrightarrow> IQHeadPtr s d - (IQReadPtr s d + 1428 * int k) > 1428) \<and>
           (\<forall>k<length pkts. packet_layout (pkts ! k) (SequenceCounter s d + of_nat k)
                               (DDCSampleBuffer s d) (IQReadPtr s d + 1428 * int k)) \<and>
           IQReadPtr (drain_ddc e d s) d = IQReadPtr s d + 1428 * int (length pkts)"
  using assms
proof (induction e d s rule: drain_ddc.induct)
  case (1 e d s)
  show ?case
  proof (cases "IQHeadPtr s d - IQReadPtr s d > 1428")
    case False
    then have "drain_ddc e d s = s"
      by (rule drain_ddc_stop)
    moreover have "\<not> IQHeadPtr s d - (IQReadPtr s d + 1428 * int k) > 1428" for k
      using False by simp
    ultimately show ?thesis
      by (intro exI [of _ "[]"]) simp
  next
    case True
    define s' where "s' = emit_packet e d s"
    have step: "drain_ddc e d s = drain_ddc e d s'"
      using True unfolding s'_def by (rule drain_ddc_step)
    obtain p where p: "trace s' = trace s @ [EvSendmsg d (datagram s d) p]"
      "packet_layout p (SequenceCounter s d) (DDCSampleBuffer s d) (IQReadPtr s d)"
      using emit_packet_trace [OF "1.prems"] unfolding s'_def by blast
    have fr: "IQHeadPtr s' d = IQHeadPtr s d" "IQReadPtr s' d = IQReadPtr s d + 1428"
      "SequenceCounter s' d = SequenceCounter s d + 1" "DDCSampleBuffer s' d = DDCSampleBuffer s d"
      "datagram s' d = datagram s d"
      unfolding s'_def by (simp_all add: emit_packet_frame)
    have "int VIQBYTESPERFRAME < IQHeadPtr s d - IQReadPtr s d"
      using True by (simp add: VIQBYTESPERFRAME_def VIQSAMPLESPERFRAME_def)
    from "1.IH" [OF this wired_emit_packet [OF "1.prems"]]
    obtain pkts where pk:
      "trace (drain_ddc e d s') = trace s' @ map (EvSendmsg d (datagram s' d)) pkts"
      "\<forall>k. k < length pkts \<longleftrightarrow> IQHeadPtr s' d - (IQReadPtr s' d + 1428 * int k) > 1428"
      "\<forall>k<length pkts. packet_layout (pkts ! k) (SequenceCounter s' d + of_nat k)
                               (DDCSampleBuffer s' d) (IQReadPtr s' d + 1428 * int k)"
      "IQReadPtr (drain_ddc e d s') d = IQReadPtr s' d + 1428 * int (length pkts)"
      unfolding s'_def by blast
    have a: "trace (drain_ddc e d s) = trace s @ map (EvSendmsg d (datagram s d)) (p # pkts)"
      by (simp add: step pk(1) p(1) fr)
    have b: "k < length (p # pkts) \<longleftrightarrow> IQHeadPtr s d - (IQReadPtr s d + 1428 * int k) > 1428" for k
    proof (cases k)
      case 0 then show ?thesis using True by simp
    next
      case (Suc k')
      have "k' < length pkts \<longleftrightarrow> IQHeadPtr s d - (IQReadPtr s d + 1428 + 1428 * int k') > 1428"
        using pk(2) by (simp only: fr)
      then show ?thesis using Suc by simp
    qed
    have c: "packet_layout ((p # pkts) ! k) (SequenceCounter s d + of_nat k)
               (DDCSampleBuffer s d) (IQReadPtr s d + 1428 * int k)" if "k < length (p # pkts)" for k
    proof (cases k)
      case 0 then show ?thesis using p(2) by simp
    next
      case (Suc k')
      then have "k' < length pkts" using that by simp
      then have "packet_layout (pkts ! k') (SequenceCounter s d + 1 + of_nat k')
                               (DDCSampleBuffer s d) (IQReadPtr s d + 1428 + 1428 * int k')"
        using pk(3) by (simp only: fr)
      moreover have "SequenceCounter s d + 1 + of_nat k' = SequenceCounter s d + of_nat k"
        using Suc by simp
      moreover have "IQReadPtr s d + 1428 + 1428 * int k' = IQReadPtr s d + 1428 * int k"
        using Suc by simp
      ultimately show ?thesis using Suc by simp
    qed
    have d: "IQReadPtr (drain_ddc e d s) d = IQReadPtr s d + 1428 * int (length (p # pkts))"
      by (simp add: step pk(4) fr)
    have "trace (drain_ddc e d s) = trace s @ map (EvSendmsg d (datagram s d)) (p # pkts) \<and>
           (\<forall>k. k < length (p # pkts) \<longleftrightarrow> IQHeadPtr s d - (IQReadPtr s d + 1428 * int k) > 1428) \<and>
           (\<forall>k<length (p # pkts). packet_layout ((p # pkts) ! k) (SequenceCounter s d + of_nat k)
                               (DDCSampleBuffer s d) (IQReadPtr s d + 1428 * int k)) \<and>
           IQReadPtr (drain_ddc e d s) d = IQReadPtr s d + 1428 * int (length (p # pkts))"
      using a b c d by (intro conjI allI impI)
    then show ?thesis by (rule exI)
  qed
qed


lemma wired_arm_ddc: "wired d (arm_ddc e d s)"
  by (simp add: wired_def arm_ddc_def)

text \<open>
  C1. For every DDC \<open>d\<close> whose message header is as lines 163 to 170 set it, the drain loop of
  line 179 sends a list \<open>pkts\<close> of datagrams and nothing else. Pass \<open>k\<close> of the loop sends a
  datagram exactly when the readable length at that pass, the head minus the read pointer
  after \<open>k\<close> frames, is greater than 1428. Every datagram has 1444 bytes: bytes 0 to 3 are the
  sequence counter, most significant byte first, bytes 4 to 11 are zero, bytes 12 and 13 are
  0 and 24, bytes 14 and 15 are 0 and 238, and bytes 16 to 1443 are the next 1428 bytes of the
  ring of \<open>d\<close>. The read pointer ends 1428 bytes further for each datagram sent.
\<close>

theorem drain_ddc_datagrams:
  assumes "wired d s"
  shows "\<exists>pkts. trace (drain_ddc e d s) = trace s @ map (EvSendmsg d (datagram s d)) pkts \<and>
           (\<forall>k. k < length pkts \<longleftrightarrow> IQHeadPtr s d - (IQReadPtr s d + 1428 * int k) > 1428) \<and>
           (\<forall>k<length pkts.
               length (pkts ! k) = 1444 \<and>
               take 4 (pkts ! k) = be_bytes32 (SequenceCounter s d + of_nat k) \<and>
               (\<forall>i\<in>{4..<12}. pkts ! k ! i = 0) \<and>
               pkts ! k ! 12 = 0 \<and> pkts ! k ! 13 = 24 \<and> pkts ! k ! 14 = 0 \<and> pkts ! k ! 15 = 238 \<and>
               (\<forall>j<1428. pkts ! k ! (16 + j) =
                           DDCSampleBuffer s d (IQReadPtr s d + 1428 * int k + int j))) \<and>
           IQReadPtr (drain_ddc e d s) d = IQReadPtr s d + 1428 * int (length pkts)"
  using drain_ddc_packets [OF assms, of e] unfolding packet_layout_def .

theorem drain_ddc_datagrams_witness:
  "wired 0 ((arm_ddc env0 0 state0)\<lparr>IQHeadPtr := (\<lambda>d. 1429)\<rparr>) \<and>
   (\<exists>p. trace (drain_ddc env0 0 ((arm_ddc env0 0 state0)\<lparr>IQHeadPtr := (\<lambda>d. 1429)\<rparr>)) =
          [EvSendmsg 0 (datagram (arm_ddc env0 0 state0) 0) p] \<and>
        length p = 1444 \<and> take 4 p = be_bytes32 0 \<and> p ! 13 = 24 \<and> p ! 15 = 238 \<and> p ! 16 = 0)"
proof -
  define s where "s = (arm_ddc env0 0 state0)\<lparr>IQHeadPtr := (\<lambda>d. 1429)\<rparr>"
  have w: "wired 0 s"
    unfolding s_def by (simp add: wired_def arm_ddc_def)
  have v: "IQHeadPtr s 0 = 1429" "IQReadPtr s 0 = 0" "trace s = []" "SequenceCounter s 0 = 0"
    "datagram s 0 = datagram (arm_ddc env0 0 state0) 0" "DDCSampleBuffer s 0 = (\<lambda>a. 0)"
    unfolding s_def by (simp_all add: arm_ddc_def state0_def)
  obtain pkts where pk:
    "trace (drain_ddc env0 0 s) = trace s @ map (EvSendmsg 0 (datagram s 0)) pkts"
    "\<forall>k. k < length pkts \<longleftrightarrow> IQHeadPtr s 0 - (IQReadPtr s 0 + 1428 * int k) > 1428"
    "\<forall>k<length pkts.
               length (pkts ! k) = 1444 \<and>
               take 4 (pkts ! k) = be_bytes32 (SequenceCounter s 0 + of_nat k) \<and>
               (\<forall>i\<in>{4..<12}. pkts ! k ! i = 0) \<and>
               pkts ! k ! 12 = 0 \<and> pkts ! k ! 13 = 24 \<and> pkts ! k ! 14 = 0 \<and> pkts ! k ! 15 = 238 \<and>
               (\<forall>j<1428. pkts ! k ! (16 + j) =
                           DDCSampleBuffer s 0 (IQReadPtr s 0 + 1428 * int k + int j))"
    using drain_ddc_datagrams [OF w, of env0] by blast
  have "k < length pkts \<longleftrightarrow> 1428 * int k < 1" for k
    using pk(2) by (simp add: v)
  then have "0 < length pkts" "\<not> 1 < length pkts"
    by simp_all
  then have len: "length pkts = 1"
    by arith
  then obtain p where pkts: "pkts = [p]"
    by (cases pkts) auto
  have lay: "length p = 1444 \<and> take 4 p = be_bytes32 0 \<and> (\<forall>i\<in>{4..<12}. p ! i = 0) \<and>
     p ! 12 = 0 \<and> p ! 13 = 24 \<and> p ! 14 = 0 \<and> p ! 15 = 238 \<and> (\<forall>j<1428. p ! (16 + j) = 0)"
    using pk(3) by (simp add: pkts v)
  then have "\<forall>j<1428. p ! (16 + j) = 0"
    by blast
  then have "p ! (16 + 0) = 0"
    by (rule allE [of _ 0]) simp
  with lay have "length p = 1444 \<and> take 4 p = be_bytes32 0 \<and> p ! 13 = 24 \<and> p ! 15 = 238 \<and> p ! 16 = 0"
    by simp
  moreover have "trace (drain_ddc env0 0 s) = [EvSendmsg 0 (datagram (arm_ddc env0 0 state0) 0) p]"
    using pk(1) by (simp add: pkts v)
  ultimately show ?thesis
    using w unfolding s_def by auto
qed

lemma emit_packet_send:
  "n_send (emit_packet e d s) = Suc (n_send s)"
  "InitError (emit_packet e d s) = (InitError s \<or> sendmsg_result e (n_send s) = - 1)"
  by (simp_all add: emit_packet_def Let_def)

lemma frames_left:
  fixes L :: int
  assumes "1428 < L"
  shows "Suc (nat ((L - 1429) div 1428)) = nat ((L - 1) div 1428)"
proof -
  have "(L - 1429 + 1428) div 1428 = (L - 1429) div 1428 + 1"
    by (rule div_add_self2) simp
  then have a: "(L - 1) div 1428 = (L - 1429) div 1428 + 1"
    by simp
  have b: "0 \<le> (L - 1429) div 1428"
    using assms by (simp add: pos_imp_zdiv_nonneg_iff)
  show ?thesis
    unfolding a using b by simp
qed

lemma drain_ddc_n_send:
  "n_send (drain_ddc e d s) = n_send s + nat ((IQHeadPtr s d - IQReadPtr s d - 1) div 1428)"
proof (induction e d s rule: drain_ddc.induct)
  case (1 e d s)
  show ?case
  proof (cases "IQHeadPtr s d - IQReadPtr s d > 1428")
    case False
    then show ?thesis by (simp add: drain_ddc_stop)
  next
    case True
    then have "int VIQBYTESPERFRAME < IQHeadPtr s d - IQReadPtr s d"
      by (simp add: VIQBYTESPERFRAME_def VIQSAMPLESPERFRAME_def)
    from "1.IH" [OF this]
    have "n_send (drain_ddc e d s) = Suc (n_send s) + nat ((IQHeadPtr s d - (IQReadPtr s d + 1428) - 1) div 1428)"
      by (simp add: drain_ddc_step [OF True] emit_packet_frame emit_packet_send)
    moreover have "IQHeadPtr s d - (IQReadPtr s d + 1428) - 1 = IQHeadPtr s d - IQReadPtr s d - 1429"
      by simp
    moreover note frames_left [OF True]
    ultimately show ?thesis by simp
  qed
qed

lemma drain_ddc_InitError:
  "InitError (drain_ddc e d s) \<longleftrightarrow>
     InitError s \<or> (\<exists>k. n_send s \<le> k \<and> k < n_send (drain_ddc e d s) \<and> sendmsg_result e k = - 1)"
proof (induction e d s rule: drain_ddc.induct)
  case (1 e d s)
  show ?case
  proof (cases "IQHeadPtr s d - IQReadPtr s d > 1428")
    case False
    then show ?thesis by (auto simp add: drain_ddc_stop)
  next
    case True
    define s' where "s' = emit_packet e d s"
    have st: "drain_ddc e d s = drain_ddc e d s'"
      unfolding s'_def by (rule drain_ddc_step [OF True])
    have "int VIQBYTESPERFRAME < IQHeadPtr s d - IQReadPtr s d"
      using True by (simp add: VIQBYTESPERFRAME_def VIQSAMPLESPERFRAME_def)
    from "1.IH" [OF this]
    have ih: "InitError (drain_ddc e d s') \<longleftrightarrow>
     InitError s' \<or> (\<exists>k. n_send s' \<le> k \<and> k < n_send (drain_ddc e d s') \<and> sendmsg_result e k = - 1)"
      unfolding s'_def .
    have n: "n_send s' = Suc (n_send s)" and i: "InitError s' = (InitError s \<or> sendmsg_result e (n_send s) = - 1)"
      unfolding s'_def by (simp_all add: emit_packet_send)
    have m: "n_send s' \<le> n_send (drain_ddc e d s')"
      by (simp add: drain_ddc_n_send)
    show ?thesis
      unfolding st ih n i
      using m [unfolded n]
      by (metis Suc_leD Suc_le_eq le_antisym not_less_eq_eq order_refl)
  qed
qed

lemma state_two_frames_simps:
  "IQHeadPtr state_two_frames 0 = 2857" "IQReadPtr state_two_frames 0 = 0"
  "n_send state_two_frames = 0" "InitError state_two_frames = False"
  by (simp_all add: state_two_frames_def arm_ddc_def state0_def)

text \<open>
  C5 fails as stated. With two frames and a byte in the ring of DDC 0 and a \<open>sendmsg\<close> that
  returns -1 every time, the first send fails and the drain loop still makes a second call of
  \<open>sendmsg\<close>.
\<close>

theorem drain_ddc_goes_on_after_failure:
  "sendmsg_result env_sendfail (n_send state_two_frames) = - 1 \<and>
   n_send (drain_ddc env_sendfail 0 state_two_frames) = n_send state_two_frames + 2"
  by (simp add: drain_ddc_n_send state_two_frames_simps) (simp add: env_sendfail_def)


subsection \<open>Quiet steps and invariants of a stream\<close>

lemma quiet_refl: "quiet s s"
  by (simp add: quiet_def)


lemma quietI:
  assumes "SequenceCounter s' = SequenceCounter s" "StartupCount s' = StartupCount s"
    "n_send s' = n_send s" "datagram s' = datagram s" "iovecinst s' = iovecinst s"
    "Active s' = Active s" "StartupCount s \<noteq> 0 \<Longrightarrow> GlobalFIFOOverflows s' = GlobalFIFOOverflows s"
    "DMATransferSize s' \<in> {DMATransferSize s, 4096, 8192, 16384, 32768}"
    "InitError s \<Longrightarrow> InitError s'"
    "trace s' = trace s @ es" "list_all quiet_event es"
  shows "quiet s s'"
  using assms unfolding quiet_def by blast

lemma quiet_trans:
  assumes "quiet s s1" and "quiet s1 s2"
  shows "quiet s s2"
proof -
  from assms(1) obtain es1 where a:
    "SequenceCounter s1 = SequenceCounter s" "StartupCount s1 = StartupCount s"
    "n_send s1 = n_send s" "datagram s1 = datagram s" "iovecinst s1 = iovecinst s"
    "Active s1 = Active s"
    "StartupCount s \<noteq> 0 \<longrightarrow> GlobalFIFOOverflows s1 = GlobalFIFOOverflows s"
    "DMATransferSize s1 \<in> {DMATransferSize s, 4096, 8192, 16384, 32768}"
    "trace s1 = trace s @ es1" "list_all quiet_event es1" "InitError s \<longrightarrow> InitError s1"
    unfolding quiet_def by blast
  from assms(2) obtain es2 where b:
    "SequenceCounter s2 = SequenceCounter s1" "StartupCount s2 = StartupCount s1"
    "n_send s2 = n_send s1" "datagram s2 = datagram s1" "iovecinst s2 = iovecinst s1"
    "Active s2 = Active s1"
    "StartupCount s1 \<noteq> 0 \<longrightarrow> GlobalFIFOOverflows s2 = GlobalFIFOOverflows s1"
    "DMATransferSize s2 \<in> {DMATransferSize s1, 4096, 8192, 16384, 32768}"
    "trace s2 = trace s1 @ es2" "list_all quiet_event es2" "InitError s1 \<longrightarrow> InitError s2"
    unfolding quiet_def by blast
  show ?thesis
  proof (rule quietI [where es = "es1 @ es2"])
    show "DMATransferSize s2 \<in> {DMATransferSize s, 4096, 8192, 16384, 32768}"
      using a(8) b(8) by auto
    show "StartupCount s \<noteq> 0 \<Longrightarrow> GlobalFIFOOverflows s2 = GlobalFIFOOverflows s"
      using a(2,7) b(7) by simp
  qed (simp_all add: a b)
qed

lemma state_of_and_then:
  "state_of (and_then r k) = (case r of Continue s1 \<Rightarrow> state_of (k s1) | _ \<Rightarrow> state_of r)"
  by (cases r) simp_all

lemma quiet_and_then:
  assumes "quiet s (state_of r)"
    and "\<And>s1. r = Continue s1 \<Longrightarrow> quiet s1 (state_of (k s1))"
  shows "quiet s (state_of (and_then r k))"
proof (cases r)
  case (Continue s1)
  with assms(1) have "quiet s s1" by simp
  moreover from assms(2) Continue have "quiet s1 (state_of (k s1))" by blast
  ultimately show ?thesis
    using Continue by (simp add: quiet_trans)
qed (use assms(1) in simp_all)

lemma quiet_compact_iq: "quiet s (compact_iq d s)"
  by (rule quietI [where es = "[]"]) (simp_all add: compact_iq_def Let_def)

lemma quiet_compact_dma: "quiet s (compact_dma s)"
  by (rule quietI [where es = "[]"]) (simp_all add: compact_dma_def Let_def)

lemma quiet_usleep: "quiet s (usleep n s)"
  by (rule quietI [where es = "[EvUsleep n]"]) (simp_all add: usleep_def)

lemma quiet_poll_fifo: "quiet s (poll_fifo e s)"
  by (rule quietI [where es = "[EvReadFIFOMonitorChannel]"])
     (simp_all add: poll_fifo_def ReadFIFOMonitorChannel_def Let_def)

lemma quiet_select_transfer_size: "quiet s (select_transfer_size s)"
  by (rule quietI [where es = "[]"]) (simp_all add: select_transfer_size_def)

lemma quiet_dma_read: "quiet s (dma_read e s)"
  by (rule quietI [where es = "[EvDMAReadFromFPGA (DMAHeadPtr s) (DMATransferSize s)]"])
     (simp_all add: dma_read_def)

lemma quiet_exit_process: "quiet s (state_of (exit_process c s))"
  unfolding exit_process_def
  by (rule quietI [where es = "[EvExit c]"]) simp_all

lemma quiet_read_SDRActive: "quiet s (snd (read_SDRActive e s))"
  by (rule quietI [where es = "[]"]) (simp_all add: read_SDRActive_def)

lemma quiet_InitError: "quiet s (s\<lparr>InitError := True\<rparr>)"
  by (rule quietI [where es = "[]"]) simp_all

lemma quiet_DMAReadPtr: "quiet s (s\<lparr>DMAReadPtr := p\<rparr>)"
  by (rule quietI [where es = "[]"]) simp_all

lemma quiet_wait_fifo: "quiet s (state_of (wait_fifo e f s))"
proof (induction f arbitrary: s)
  case 0
  show ?case by (simp add: quiet_refl)
next
  case (Suc f)
  show ?case
  proof (cases "Depth s < DMATransferSize s div 8")
    case True
    have "quiet (poll_fifo e (usleep 500 s)) (state_of (wait_fifo e f (poll_fifo e (usleep 500 s))))"
      by (rule Suc.IH)
    then have "quiet s (state_of (wait_fifo e f (poll_fifo e (usleep 500 s))))"
      using quiet_trans quiet_usleep quiet_poll_fifo by blast
    then show ?thesis using True by simp
  next
    case False
    then show ?thesis by (simp add: quiet_refl)
  qed
qed


lemma quiet_sync_scan: "quiet s (state_of (sync_scan f Cntr s))"
proof (induction f arbitrary: Cntr)
  case 0
  show ?case by (simp add: quiet_refl)
next
  case (Suc f)
  have "quiet s (s\<lparr>HeaderFound := True, DMAReadPtr := DMAReadPtr s + uint Cntr\<rparr>)"
    by (rule quietI [where es = "[]"]) simp_all
  with Suc.IH [of "Cntr + 8"] show ?case
    by (simp add: quiet_refl)
qed

lemma quiet_acquire_sync: "quiet s (state_of (acquire_sync f s))"
  unfolding acquire_sync_def
proof (rule quiet_and_then)
  show "quiet s (state_of (if \<not> HeaderFound s then sync_scan f 16 s else Continue s))"
    by (simp add: quiet_sync_scan quiet_refl)
next
  fix s1
  have "quiet s1 (state_of (exit_process 1 (s1\<lparr>InitError := True\<rparr>)))"
    using quiet_trans quiet_InitError quiet_exit_process by blast
  then show "quiet s1 (state_of (if \<not> HeaderFound s1 then exit_process 1 (s1\<lparr>InitError := True\<rparr>)
                                 else Continue s1))"
    by (simp add: quiet_refl)
qed

lemma quiet_decode_header: "quiet s (decode_header e s)"
  by (rule quietI [where es = "[]"]) (simp_all add: decode_header_def Let_def split: prod.splits)

lemma quiet_copy_ddc: "quiet s (snd (copy_ddc d (p, s)))"
  by (rule quietI [where es = "[]"]) (simp_all add: copy_ddc_def Let_def split: prod.splits)

lemma quiet_fold_copy_ddc: "quiet s (snd (fold copy_ddc ds (p, s)))"
proof (induction ds arbitrary: p s)
  case Nil
  show ?case by (simp add: quiet_refl)
next
  case (Cons d ds)
  obtain p1 s1 where c: "copy_ddc d (p, s) = (p1, s1)"
    by (cases "copy_ddc d (p, s)")
  have "quiet s s1"
    using quiet_copy_ddc [of s d p] by (simp add: c)
  moreover have "quiet s1 (snd (fold copy_ddc ds (p1, s1)))"
    by (rule Cons.IH)
  ultimately show ?case
    by (simp add: c quiet_trans)
qed

lemma copy_frame_alt:
  "copy_frame e s =
     (let s2 = snd (fold copy_ddc [0..<VNUMDDC e] (DMAReadPtr s + 8, s\<lparr>DMAReadPtr := DMAReadPtr s + 8\<rparr>))
      in s2\<lparr>DMAReadPtr := DMAReadPtr s2 + uint (FrameLength s2 * 8)\<rparr>)"
  by (simp add: copy_frame_def Let_def split: prod.splits)

lemma quiet_copy_frame: "quiet s (copy_frame e s)"
proof -
  let ?s1 = "s\<lparr>DMAReadPtr := DMAReadPtr s + 8\<rparr>"
  let ?s2 = "snd (fold copy_ddc [0..<VNUMDDC e] (DMAReadPtr s + 8, ?s1))"
  have "quiet ?s1 ?s2"
    by (rule quiet_fold_copy_ddc)
  then have "quiet s (?s2\<lparr>DMAReadPtr := DMAReadPtr ?s2 + uint (FrameLength ?s2 * 8)\<rparr>)"
    using quiet_trans quiet_DMAReadPtr by blast
  then show ?thesis
    by (simp add: copy_frame_alt Let_def)
qed

lemma quiet_parse_frames: "quiet s (state_of (parse_frames e f D s))"
proof (induction f arbitrary: D s)
  case 0
  show ?case by (simp add: quiet_refl)
next
  case (Suc f)
  let ?s1 = "decode_header e s"
  have "quiet (copy_frame e ?s1)
          (state_of (parse_frames e f (D - (FrameLength ?s1 + 1) * 8) (copy_frame e ?s1)))"
    by (rule Suc.IH)
  then have "quiet s (state_of (parse_frames e f (D - (FrameLength ?s1 + 1) * 8) (copy_frame e ?s1)))"
    using quiet_trans quiet_decode_header quiet_copy_frame by blast
  then show ?case
    by (simp add: Let_def quiet_refl quiet_exit_process quiet_decode_header)
qed

lemma quiet_fill: "quiet (drain_all e s) (state_of (stream_iter e f s))"
  unfolding stream_iter_def
proof (rule quiet_and_then)
  show "quiet (drain_all e s) (state_of (wait_fifo e f (poll_fifo e (drain_all e s))))"
    using quiet_trans quiet_poll_fifo quiet_wait_fifo by blast
next
  fix s1
  show "quiet s1 (state_of (and_then (acquire_sync f (dma_read e (select_transfer_size s1)))
          (\<lambda>s2. and_then (parse_frames e f (word_of_int (DMAHeadPtr s2 - DMAReadPtr s2)) s2)
                  (\<lambda>s3. Continue (compact_dma s3)))))"
  proof (rule quiet_and_then)
    have "quiet (dma_read e (select_transfer_size s1))
            (state_of (acquire_sync f (dma_read e (select_transfer_size s1))))"
      by (rule quiet_acquire_sync)
    then show "quiet s1 (state_of (acquire_sync f (dma_read e (select_transfer_size s1))))"
      using quiet_trans quiet_select_transfer_size quiet_dma_read by blast
  next
    fix s2
    show "quiet s2 (state_of (and_then (parse_frames e f (word_of_int (DMAHeadPtr s2 - DMAReadPtr s2)) s2)
            (\<lambda>s3. Continue (compact_dma s3))))"
    proof (rule quiet_and_then)
      show "quiet s2 (state_of (parse_frames e f (word_of_int (DMAHeadPtr s2 - DMAReadPtr s2)) s2))"
        by (rule quiet_parse_frames)
    next
      fix s3
      show "quiet s3 (state_of (Continue (compact_dma s3)))"
        by (simp add: quiet_compact_dma)
    qed
  qed
qed

text \<open>
  An invariant of a stream is a property kept by every pass of the packet loop and by every
  quiet step. It is then kept by the drain loops, by a pass of the streaming loop and by the
  streaming loop.
\<close>

lemma drain_ddc_invariant:
  assumes "\<And>s. J s \<Longrightarrow> IQHeadPtr s d - IQReadPtr s d > 1428 \<Longrightarrow> J (emit_packet e d s)"
    and "J s"
  shows "J (drain_ddc e d s)"
  using assms
proof (induction e d s rule: drain_ddc.induct)
  case (1 e d s)
  show ?case
  proof (cases "IQHeadPtr s d - IQReadPtr s d > 1428")
    case False
    then show ?thesis using "1.prems" by (simp add: drain_ddc_stop)
  next
    case True
    then have "int VIQBYTESPERFRAME < IQHeadPtr s d - IQReadPtr s d"
      by (simp add: VIQBYTESPERFRAME_def VIQSAMPLESPERFRAME_def)
    from "1.IH" [OF this "1.prems"(1)] "1.prems" True show ?thesis
      by (simp add: drain_ddc_step [OF True])
  qed
qed

lemma drain_fold_invariant:
  assumes step: "\<And>s d. d < n \<Longrightarrow> J s \<Longrightarrow> J (emit_packet e d s)"
    and quiet: "\<And>s s'. J s \<Longrightarrow> quiet s s' \<Longrightarrow> J s'"
    and "J s" and "\<forall>d\<in>set ds. d < n"
  shows "J (fold (\<lambda>DDC s. compact_iq DDC (drain_ddc e DDC s)) ds s)"
  using assms(3,4)
proof (induction ds arbitrary: s)
  case Nil
  then show ?case by simp
next
  case (Cons d ds)
  have "d < n"
    using Cons.prems by simp
  then have "J (drain_ddc e d s)"
    using Cons.prems(1) step by (rule_tac drain_ddc_invariant [of J d e s]) blast+
  then have "J (compact_iq d (drain_ddc e d s))"
    using quiet quiet_compact_iq by blast
  with Cons show ?case by simp
qed

lemma drain_all_invariant:
  assumes "\<And>s d. d < VNUMDDC e \<Longrightarrow> J s \<Longrightarrow> J (emit_packet e d s)"
    and "\<And>s s'. J s \<Longrightarrow> quiet s s' \<Longrightarrow> J s'"
    and "J s"
  shows "J (drain_all e s)"
  unfolding drain_all_def
proof (rule drain_fold_invariant [of "VNUMDDC e" J e s "[0..<VNUMDDC e]"])
  show "\<forall>d\<in>set [0..<VNUMDDC e]. d < VNUMDDC e" by simp
qed (use assms in blast)+

lemma stream_iter_invariant:
  assumes "\<And>s d. d < VNUMDDC e \<Longrightarrow> J s \<Longrightarrow> J (emit_packet e d s)"
    and "\<And>s s'. J s \<Longrightarrow> quiet s s' \<Longrightarrow> J s'"
    and "J s"
  shows "J (state_of (stream_iter e f s))"
  using assms(2) [OF drain_all_invariant [of e J, OF assms] quiet_fill] .

lemma streaming_loop_invariant:
  assumes step: "\<And>s d. d < VNUMDDC e \<Longrightarrow> J s \<Longrightarrow> J (emit_packet e d s)"
    and quiet: "\<And>s s'. J s \<Longrightarrow> quiet s s' \<Longrightarrow> J s'"
    and "J s"
  shows "J (state_of (streaming_loop e f s))"
  using assms(3)
proof (induction f arbitrary: s)
  case 0
  then show ?case by simp
next
  case (Suc f)
  let ?s1 = "snd (read_SDRActive e s)"
  have j1: "J ?s1"
    using quiet [OF Suc.prems quiet_read_SDRActive] .
  have "J (state_of (and_then (stream_iter e f ?s1) (streaming_loop e f)))"
  proof (cases "stream_iter e f ?s1")
    case (Continue s2)
    have "J (state_of (stream_iter e f ?s1))"
      using step quiet j1 by (rule stream_iter_invariant)
    then have "J s2" by (simp add: Continue)
    then show ?thesis using Continue Suc.IH by simp
  next
    case (ProcessExit s2)
    have "J (state_of (stream_iter e f ?s1))"
      using step quiet j1 by (rule stream_iter_invariant)
    then show ?thesis by (simp add: ProcessExit)
  next
    case (OutOfFuel s2)
    have "J (state_of (stream_iter e f ?s1))"
      using step quiet j1 by (rule stream_iter_invariant)
    then show ?thesis by (simp add: OutOfFuel)
  qed
  then show ?case
    using Suc.prems j1 by (simp add: split_beta)
qed

subsection \<open>Arming\<close>

lemma arm_fold_frame:
  "StartupCount (fold (arm_ddc e) ds s) = StartupCount s"
  "n_send (fold (arm_ddc e) ds s) = n_send s"
  "GlobalFIFOOverflows (fold (arm_ddc e) ds s) = GlobalFIFOOverflows s"
  "trace (fold (arm_ddc e) ds s) = trace s"
  "InitError (fold (arm_ddc e) ds s) = InitError s"
  "Active (fold (arm_ddc e) ds s) = Active s"
  "DMATransferSize (fold (arm_ddc e) ds s) = DMATransferSize s"
  "n_sdr (fold (arm_ddc e) ds s) = n_sdr s"
  by (induction ds arbitrary: s) (simp_all add: arm_ddc_def)

lemma arm_fold_other:
  "d \<notin> set ds \<Longrightarrow> SequenceCounter (fold (arm_ddc e) ds s) d = SequenceCounter s d"
  "d \<notin> set ds \<Longrightarrow> datagram (fold (arm_ddc e) ds s) d = datagram s d"
  "d \<notin> set ds \<Longrightarrow> iovecinst (fold (arm_ddc e) ds s) d = iovecinst s d"
  by (induction ds arbitrary: s) (simp_all add: arm_ddc_def)

lemma arm_fold_armed:
  assumes "d \<in> set ds" and "distinct ds"
  shows "SequenceCounter (fold (arm_ddc e) ds s) d = 0"
    and "datagram (fold (arm_ddc e) ds s) d =
           \<lparr>msg_name = d, msg_namelen = VNUMDDC e * sizeof_sockaddr_in e,
            msg_iov = d, msg_iovlen = 1, msg_controllen = 0, msg_flags = 0\<rparr>"
    and "iovecinst (fold (arm_ddc e) ds s) d = \<lparr>iov_base = d, iov_len = VDDCPACKETSIZE\<rparr>"
  using assms
proof (induction ds arbitrary: s)
  case Nil
  {
    case 1 then show ?case by simp
  next
    case 2 then show ?case by simp
  next
    case 3 then show ?case by simp
  }
next
  case (Cons a ds)
  {
    case 1
    then show ?case
      by (cases "d = a") (simp_all add: Cons.IH(1) arm_fold_other, simp add: arm_ddc_def)
  next
    case 2
    then show ?case
      by (cases "d = a") (simp_all add: Cons.IH(2) arm_fold_other, simp add: arm_ddc_def)
  next
    case 3
    then show ?case
      by (cases "d = a") (simp_all add: Cons.IH(3) arm_fold_other, simp add: arm_ddc_def)
  }
qed

lemma arming_frame:
  "StartupCount (arming e s) = VSTARTUPDELAY"
  "n_send (arming e s) = n_send s"
  "GlobalFIFOOverflows (arming e s) = GlobalFIFOOverflows s"
  "trace (arming e s) = trace s @ [EvSetRXDDCEnabled True]"
  "InitError (arming e s) = InitError s"
  "Active (arming e s) = Active s"
  "DMATransferSize (arming e s) = DMATransferSize s"
  "n_sdr (arming e s) = n_sdr s"
  "HeaderFound (arming e s) = False"
  by (simp_all add: arming_def Let_def SetRXDDCEnabled_def arm_fold_frame)

lemma arming_armed:
  assumes "d < VNUMDDC e"
  shows "SequenceCounter (arming e s) d = 0"
    and "datagram (arming e s) d =
           \<lparr>msg_name = d, msg_namelen = VNUMDDC e * sizeof_sockaddr_in e,
            msg_iov = d, msg_iovlen = 1, msg_controllen = 0, msg_flags = 0\<rparr>"
    and "iovecinst (arming e s) d = \<lparr>iov_base = d, iov_len = VDDCPACKETSIZE\<rparr>"
  using assms by (simp_all add: arming_def Let_def SetRXDDCEnabled_def arm_fold_armed)

lemma wired_arming: "d < VNUMDDC e \<Longrightarrow> wired d (arming e s)"
  by (simp add: wired_def arming_armed)


subsection \<open>Startup count\<close>

lemma emit_packet_StartupCount:
  "StartupCount (emit_packet e d s) = (if StartupCount s \<noteq> 0 then StartupCount s - 1 else StartupCount s)"
  "GlobalFIFOOverflows (emit_packet e d s) = GlobalFIFOOverflows s"
  by (simp_all add: emit_packet_def Let_def)

lemma poll_fifo_GlobalFIFOOverflows:
  "GlobalFIFOOverflows (poll_fifo e s) =
     (if StartupCount s = 0 \<and> rd_overthreshold (fifo_monitor e (n_fifo s))
      then GlobalFIFOOverflows s OR 1 else GlobalFIFOOverflows s)"
  by (simp add: poll_fifo_def ReadFIFOMonitorChannel_def Let_def)

lemma startup_inv_emit_packet:
  assumes "startup_inv s0 s"
  shows "startup_inv s0 (emit_packet e d s)"
proof -
  from assms have a: "n_send s0 \<le> n_send s" "unat (StartupCount s) = 100 - (n_send s - n_send s0)"
    "n_send s - n_send s0 < 100 \<longrightarrow> GlobalFIFOOverflows s = GlobalFIFOOverflows s0"
    by (simp_all add: startup_inv_def)
  show ?thesis
  proof (cases "StartupCount s = 0")
    case True
    then have "100 - (n_send s - n_send s0) = 0"
      using a(2) by simp
    then show ?thesis
      using a True by (simp add: startup_inv_def emit_packet_StartupCount emit_packet_send)
  next
    case False
    then have "unat (StartupCount s - 1) = unat (StartupCount s) - 1"
      by (simp add: unat_minus_one)
    then show ?thesis
      using a False by (simp add: startup_inv_def emit_packet_StartupCount emit_packet_send)
  qed
qed

lemma startup_inv_quiet:
  assumes "startup_inv s0 s" and "quiet s s'"
  shows "startup_inv s0 s'"
proof -
  from assms(2) have q: "n_send s' = n_send s" "StartupCount s' = StartupCount s"
    "StartupCount s \<noteq> 0 \<longrightarrow> GlobalFIFOOverflows s' = GlobalFIFOOverflows s"
    by (simp_all add: quiet_def)
  from assms(1) have a: "n_send s0 \<le> n_send s" "unat (StartupCount s) = 100 - (n_send s - n_send s0)"
    "n_send s - n_send s0 < 100 \<longrightarrow> GlobalFIFOOverflows s = GlobalFIFOOverflows s0"
    by (simp_all add: startup_inv_def)
  have "GlobalFIFOOverflows s' = GlobalFIFOOverflows s0" if "n_send s - n_send s0 < 100"
  proof -
    from that a(2) have "unat (StartupCount s) \<noteq> 0" by simp
    then have "StartupCount s \<noteq> 0" by auto
    with q(3) a(3) that show ?thesis by simp
  qed
  then show ?thesis
    using a by (simp add: startup_inv_def q)
qed

lemma startup_inv_arming: "startup_inv (arming e s) (arming e s)"
  by (simp add: startup_inv_def arming_frame VSTARTUPDELAY_def)

lemma startup_inv_streaming_loop:
  "startup_inv (arming e s) (state_of (streaming_loop e f (arming e s)))"
  by (rule streaming_loop_invariant [of e "startup_inv (arming e s)"])
     (simp_all add: startup_inv_emit_packet startup_inv_quiet startup_inv_arming)

lemma copy_frame_StartupCount: "StartupCount (copy_frame e s) = StartupCount s"
  using quiet_copy_frame [of s e] by (simp add: quiet_def)

text \<open>
  C8. While \<open>StartupCount\<close> is not zero a reading of the FIFO monitor leaves
  \<open>GlobalFIFOOverflows\<close> as it is, over the threshold or not; once it is zero an
  over-threshold reading sets bit 0. Arming sets the count to \<open>VSTARTUPDELAY\<close>, which is 100;
  each packet sent takes one off while it is not zero; copying a frame leaves it alone. So in
  the state a stream has reached after \<open>k\<close> calls of \<open>sendmsg\<close> the count is 100 less \<open>k\<close>
  (zero from 100 calls on), and as long as \<open>k\<close> is below 100 \<open>GlobalFIFOOverflows\<close> is what
  it was when the stream started.
\<close>

theorem startup_suppression:
  "(StartupCount s \<noteq> 0 \<longrightarrow> GlobalFIFOOverflows (poll_fifo e s) = GlobalFIFOOverflows s) \<and>
   (StartupCount s = 0 \<and> rd_overthreshold (fifo_monitor e (n_fifo s)) \<longrightarrow>
      bit (GlobalFIFOOverflows (poll_fifo e s)) 0) \<and>
   StartupCount (arming e s) = VSTARTUPDELAY \<and> VSTARTUPDELAY = 100 \<and>
   StartupCount (emit_packet e d s) = (if StartupCount s \<noteq> 0 then StartupCount s - 1 else StartupCount s) \<and>
   StartupCount (copy_frame e s) = StartupCount s \<and>
   n_send (arming e s) \<le> n_send (state_of (streaming_loop e f (arming e s))) \<and>
   unat (StartupCount (state_of (streaming_loop e f (arming e s)))) =
     100 - (n_send (state_of (streaming_loop e f (arming e s))) - n_send (arming e s)) \<and>
   (n_send (state_of (streaming_loop e f (arming e s))) - n_send (arming e s) < 100 \<longrightarrow>
      GlobalFIFOOverflows (state_of (streaming_loop e f (arming e s))) = GlobalFIFOOverflows (arming e s))"
proof -
  have "bit (GlobalFIFOOverflows s OR 1) 0"
    by (simp add: bit_simps)
  then show ?thesis
    using startup_inv_streaming_loop [of e s f]
    by (simp add: poll_fifo_GlobalFIFOOverflows arming_frame emit_packet_StartupCount
        copy_frame_StartupCount startup_inv_def VSTARTUPDELAY_def)
qed


theorem startup_suppression_witness:
  "StartupCount (state0\<lparr>StartupCount := 5\<rparr>) \<noteq> 0 \<and>
   rd_overthreshold (fifo_monitor env_over (n_fifo (state0\<lparr>StartupCount := 5\<rparr>))) \<and>
   GlobalFIFOOverflows (poll_fifo env_over (state0\<lparr>StartupCount := 5\<rparr>)) = 0 \<and>
   StartupCount state0 = 0 \<and> rd_overthreshold (fifo_monitor env_over (n_fifo state0)) \<and>
   bit (GlobalFIFOOverflows (poll_fifo env_over state0)) 0 \<and>
   n_send (state_of (streaming_loop env_over 0 (arming env_over state0))) - n_send (arming env_over state0) < 100 \<and>
   GlobalFIFOOverflows (state_of (streaming_loop env_over 0 (arming env_over state0))) = 0"
proof -
  have a: "StartupCount (state0\<lparr>StartupCount := 5\<rparr>) \<noteq> 0" "StartupCount state0 = 0"
    "GlobalFIFOOverflows (state0\<lparr>StartupCount := 5\<rparr>) = 0" "GlobalFIFOOverflows state0 = 0"
    by (simp_all add: state0_def)
  have b: "rd_overthreshold (fifo_monitor env_over n)" for n
    by (simp add: env_over_def)
  show ?thesis
    using startup_suppression [of "state0\<lparr>StartupCount := 5\<rparr>" env_over 0 0]
      startup_suppression [of state0 env_over 0 0]
    by (simp add: a b arming_frame)
qed

subsection \<open>Sequence numbers\<close>

lemma sent_on_append: "sent_on d (es @ es') = sent_on d es @ sent_on d es'"
  by (induction d es rule: sent_on.induct) simp_all

lemma sent_on_quiet: "list_all quiet_event es \<Longrightarrow> sent_on d es = []"
  by (induction d es rule: sent_on.induct) simp_all

lemma seq_inv_arming: "seq_inv e (arming e s) (arming e s)"
  unfolding seq_inv_def
  by (intro conjI exI [of _ "[]"]) (simp_all add: wired_arming arming_armed)

lemma seq_inv_quiet:
  assumes "seq_inv e s0 s" and "quiet s s'"
  shows "seq_inv e s0 s'"
proof -
  from assms(2) obtain qs where q: "SequenceCounter s' = SequenceCounter s"
    "datagram s' = datagram s" "iovecinst s' = iovecinst s"
    "trace s' = trace s @ qs" "list_all quiet_event qs"
    unfolding quiet_def by blast
  from assms(1) obtain es where a: "\<forall>d<VNUMDDC e. wired d s" "trace s = trace s0 @ es"
    "\<forall>d<VNUMDDC e. SequenceCounter s d = of_nat (length (sent_on d es)) \<and>
           (\<forall>k<length (sent_on d es). take 4 (sent_on d es ! k) = be_bytes32 (of_nat k))"
    unfolding seq_inv_def by blast
  have s: "sent_on d (es @ qs) = sent_on d es" for d
    by (simp add: sent_on_append sent_on_quiet [OF q(5)])
  have w: "\<forall>d<VNUMDDC e. wired d s'"
    using a(1) by (simp add: wired_def q)
  show ?thesis
    unfolding seq_inv_def
    by (intro conjI exI [of _ "es @ qs"]) (use a w in \<open>simp_all add: q s\<close>)
qed

lemma seq_inv_emit_packet:
  assumes "seq_inv e s0 s" and "d < VNUMDDC e"
  shows "seq_inv e s0 (emit_packet e d s)"
proof -
  from assms(1) obtain es where a: "\<forall>d<VNUMDDC e. wired d s" "trace s = trace s0 @ es"
    "\<forall>d<VNUMDDC e. SequenceCounter s d = of_nat (length (sent_on d es)) \<and>
           (\<forall>k<length (sent_on d es). take 4 (sent_on d es ! k) = be_bytes32 (of_nat k))"
    unfolding seq_inv_def by blast
  have wd: "wired d s"
    using a(1) assms(2) by simp
  obtain p where p: "trace (emit_packet e d s) = trace s @ [EvSendmsg d (datagram s d) p]"
    "packet_layout p (SequenceCounter s d) (DDCSampleBuffer s d) (IQReadPtr s d)"
    using emit_packet_trace [OF wd] by blast
  have t4: "take 4 p = be_bytes32 (of_nat (length (sent_on d es)))"
    using p(2) a(3) assms(2) by (simp add: packet_layout_def)
  let ?es = "es @ [EvSendmsg d (datagram s d) p]"
  have s_same: "sent_on d' ?es = sent_on d' es" if "d' \<noteq> d" for d'
    using that by (simp add: sent_on_append)
  have s_d: "sent_on d ?es = sent_on d es @ [p]"
    by (simp add: sent_on_append)
  have w: "\<forall>d'<VNUMDDC e. wired d' (emit_packet e d s)"
    using a(1) by (simp add: wired_emit_packet)
  have c: "SequenceCounter (emit_packet e d s) d' = of_nat (length (sent_on d' ?es)) \<and>
           (\<forall>k<length (sent_on d' ?es). take 4 (sent_on d' ?es ! k) = be_bytes32 (of_nat k))"
    if "d' < VNUMDDC e" for d'
  proof (cases "d' = d")
    case False
    then show ?thesis
      using a(3) that by (simp add: s_same emit_packet_frame)
  next
    case True
    have "take 4 ((sent_on d es @ [p]) ! k) = be_bytes32 (of_nat k)" if "k < Suc (length (sent_on d es))" for k
    proof (cases "k < length (sent_on d es)")
      case True
      then show ?thesis using a(3) assms(2) by (simp add: nth_append)
    next
      case False
      with that have "k = length (sent_on d es)" by simp
      then show ?thesis using t4 by (simp add: nth_append)
    qed
    then show ?thesis
      using a(3) assms(2) True by (simp add: s_d emit_packet_frame)
  qed
  show ?thesis
    unfolding seq_inv_def
    by (intro conjI exI [of _ ?es]) (use w c in \<open>simp_all add: p(1) a(2)\<close>)
qed

lemma seq_inv_streaming_loop:
  "seq_inv e (arming e s) (state_of (streaming_loop e f (arming e s)))"
  by (rule streaming_loop_invariant [of e "seq_inv e (arming e s)"])
     (simp_all add: seq_inv_emit_packet seq_inv_quiet seq_inv_arming)

text \<open>
  C4. For a DDC \<open>d\<close> of the \<open>VNUMDDC\<close>, arming sets the sequence counter to 0 and each packet
  sent on \<open>d\<close> adds 1 to it (in 32 bits). In every state a stream reaches after arming, the
  datagrams sent on \<open>d\<close> since arming carry, in bytes 0 to 3 and in the order sent, the numbers
  0, 1, 2 and so on, and the counter is the number of datagrams sent.
\<close>

theorem sequence_numbers:
  assumes "d < VNUMDDC e"
  shows "SequenceCounter (arming e s) d = 0 \<and>
         SequenceCounter (emit_packet e d s) d = SequenceCounter s d + 1 \<and>
         (\<exists>es. trace (state_of (streaming_loop e f (arming e s))) = trace (arming e s) @ es \<and>
               SequenceCounter (state_of (streaming_loop e f (arming e s))) d =
                 of_nat (length (sent_on d es)) \<and>
               (\<forall>k<length (sent_on d es). take 4 (sent_on d es ! k) = be_bytes32 (of_nat k)))"
proof -
  from seq_inv_streaming_loop [of e s f] obtain es where
    "trace (state_of (streaming_loop e f (arming e s))) = trace (arming e s) @ es"
    "\<forall>d<VNUMDDC e. SequenceCounter (state_of (streaming_loop e f (arming e s))) d = of_nat (length (sent_on d es)) \<and>
           (\<forall>k<length (sent_on d es). take 4 (sent_on d es ! k) = be_bytes32 (of_nat k))"
    unfolding seq_inv_def by blast
  with assms have "\<exists>es. trace (state_of (streaming_loop e f (arming e s))) = trace (arming e s) @ es \<and>
               SequenceCounter (state_of (streaming_loop e f (arming e s))) d =
                 of_nat (length (sent_on d es)) \<and>
               (\<forall>k<length (sent_on d es). take 4 (sent_on d es ! k) = be_bytes32 (of_nat k))"
    by blast
  then show ?thesis
    using assms by (simp add: arming_armed emit_packet_frame)
qed


theorem sequence_numbers_witness:
  "0 < VNUMDDC env0 \<and> SequenceCounter (arming env0 state0) 0 = 0 \<and>
   SequenceCounter (emit_packet env0 0 state0) 0 = 1 \<and>
   SequenceCounter (state_of (streaming_loop env0 0 (arming env0 state0))) 0 = 0"
proof -
  have n: "0 < VNUMDDC env0"
    by (simp add: env0_def)
  have "SequenceCounter state0 0 = 0"
    by (simp add: state0_def)
  then show ?thesis
    using n sequence_numbers [OF n, of state0 0] by simp
qed

subsection \<open>The message header passed to sendmsg\<close>

lemma emit_packet_event:
  "\<exists>p. trace (emit_packet e d s) = trace s @ [EvSendmsg d (datagram s d) p]"
  by (simp add: emit_packet_def Let_def)

lemma quiet_event_not_send: "list_all quiet_event es \<Longrightarrow> EvSendmsg d h p \<notin> set es"
  by (induction es) auto

lemma hdr_inv_refl: "hdr_inv s s"
  unfolding hdr_inv_def by (intro conjI exI [of _ "[]"]) simp_all

lemma hdr_inv_quiet:
  assumes "hdr_inv s0 s" and "quiet s s'"
  shows "hdr_inv s0 s'"
proof -
  from assms(2) obtain qs where q: "datagram s' = datagram s"
    "trace s' = trace s @ qs" "list_all quiet_event qs"
    unfolding quiet_def by blast
  from assms(1) obtain es where a: "datagram s = datagram s0" "trace s = trace s0 @ es"
    "\<forall>d h p. EvSendmsg d h p \<in> set es \<longrightarrow> h = datagram s0 d"
    unfolding hdr_inv_def by blast
  have "\<forall>d h p. EvSendmsg d h p \<in> set (es @ qs) \<longrightarrow> h = datagram s0 d"
    using a(3) quiet_event_not_send [OF q(3)] by auto
  then show ?thesis
    unfolding hdr_inv_def
    by (intro conjI exI [of _ "es @ qs"]) (simp_all add: q a)
qed

lemma hdr_inv_emit_packet:
  assumes "hdr_inv s0 s"
  shows "hdr_inv s0 (emit_packet e d s)"
proof -
  from assms(1) obtain es where a: "datagram s = datagram s0" "trace s = trace s0 @ es"
    "\<forall>d h p. EvSendmsg d h p \<in> set es \<longrightarrow> h = datagram s0 d"
    unfolding hdr_inv_def by blast
  obtain p where p: "trace (emit_packet e d s) = trace s @ [EvSendmsg d (datagram s d) p]"
    using emit_packet_event by blast
  have "\<forall>d' h p'. EvSendmsg d' h p' \<in> set (es @ [EvSendmsg d (datagram s d) p]) \<longrightarrow> h = datagram s0 d'"
    using a(3) by (auto simp: a(1))
  then show ?thesis
    unfolding hdr_inv_def
    by (intro conjI exI [of _ "es @ [EvSendmsg d (datagram s d) p]"])
       (simp_all add: p a emit_packet_frame)
qed

lemma hdr_inv_streaming_loop:
  "hdr_inv (arming e s) (state_of (streaming_loop e f (arming e s)))"
  by (rule streaming_loop_invariant [of e "hdr_inv (arming e s)"])
     (simp_all add: hdr_inv_emit_packet hdr_inv_quiet hdr_inv_refl)

text \<open>
  C10. For a DDC \<open>d\<close> of the \<open>VNUMDDC\<close>, arming leaves \<open>msg_name\<close> of \<open>datagram[d]\<close> pointing
  at \<open>DestAddr[d]\<close> and sets \<open>msg_namelen\<close> to the size of the whole array \<open>DestAddr\<close>,
  \<open>VNUMDDC\<close> times the size of one \<open>sockaddr_in\<close>, which is not the size of one
  \<open>sockaddr_in\<close> as soon as there are two DDCs. Every message header passed to \<open>sendmsg\<close>
  on \<open>d\<close> in the stream that follows has this \<open>msg_namelen\<close>.
\<close>

theorem msg_namelen_is_sizeof_DestAddr:
  assumes "d < VNUMDDC e"
  shows "msg_name (datagram (arming e s) d) = d \<and>
         msg_namelen (datagram (arming e s) d) = VNUMDDC e * sizeof_sockaddr_in e \<and>
         (1 < VNUMDDC e \<and> 0 < sizeof_sockaddr_in e \<longrightarrow>
            msg_namelen (datagram (arming e s) d) \<noteq> sizeof_sockaddr_in e) \<and>
         (\<exists>es. trace (state_of (streaming_loop e f (arming e s))) = trace (arming e s) @ es \<and>
               (\<forall>h p. EvSendmsg d h p \<in> set es \<longrightarrow>
                      msg_namelen h = VNUMDDC e * sizeof_sockaddr_in e))"
proof -
  from hdr_inv_streaming_loop [of e s f] obtain es where es:
    "trace (state_of (streaming_loop e f (arming e s))) = trace (arming e s) @ es"
    "\<forall>d h p. EvSendmsg d h p \<in> set es \<longrightarrow> h = datagram (arming e s) d"
    unfolding hdr_inv_def by blast
  have n: "msg_namelen (datagram (arming e s) d) = VNUMDDC e * sizeof_sockaddr_in e"
    using assms by (simp add: arming_armed)
  have "\<forall>h p. EvSendmsg d h p \<in> set es \<longrightarrow> msg_namelen h = VNUMDDC e * sizeof_sockaddr_in e"
    using es(2) n by auto
  with es(1) have "\<exists>es. trace (state_of (streaming_loop e f (arming e s))) = trace (arming e s) @ es \<and>
               (\<forall>h p. EvSendmsg d h p \<in> set es \<longrightarrow>
                      msg_namelen h = VNUMDDC e * sizeof_sockaddr_in e)"
    by blast
  then show ?thesis
    using assms n by (simp add: arming_armed)
qed

theorem msg_namelen_is_sizeof_DestAddr_witness:
  "0 < VNUMDDC env0 \<and> 1 < VNUMDDC env0 \<and> 0 < sizeof_sockaddr_in env0 \<and>
   msg_namelen (datagram (arming env0 state0) 0) = 32 \<and>
   msg_namelen (datagram (arming env0 state0) 0) \<noteq> sizeof_sockaddr_in env0"
proof -
  have n: "0 < VNUMDDC env0" "VNUMDDC env0 = 2" "sizeof_sockaddr_in env0 = 16"
    by (simp_all add: env0_def)
  show ?thesis
    using n msg_namelen_is_sizeof_DestAddr [OF n(1), of state0 0] by simp
qed


subsection \<open>Initialisation\<close>

lemma init_fold_frame:
  fixes ds :: "nat list"
  defines "g \<equiv> (\<lambda>DDC s. s\<lparr>SequenceCounter := (SequenceCounter s)(DDC := 0),
                                Active := (Active s)(DDC := True)\<rparr>)"
  shows "DMATransferSize (fold g ds s) = DMATransferSize s"
    and "trace (fold g ds s) = trace s"
    and "InitError (fold g ds s) = InitError s"
    and "DMAReadPtr (fold g ds s) = DMAReadPtr s"
    and "DMAHeadPtr (fold g ds s) = DMAHeadPtr s"
    and "DMABasePtr (fold g ds s) = DMABasePtr s"
    and "DMAReadBuffer (fold g ds s) = DMAReadBuffer s"
    and "HeaderFound (fold g ds s) = HeaderFound s"
    and "n_sdr (fold g ds s) = n_sdr s"
    and "n_fifo (fold g ds s) = n_fifo s"
    and "PrevRateWord (fold g ds s) = PrevRateWord s"
    and "n_idle (fold g ds s) = n_idle s"
    and "n_send (fold g ds s) = n_send s"
    and "IQReadPtr (fold g ds s) = IQReadPtr s"
    and "IQHeadPtr (fold g ds s) = IQHeadPtr s"
    and "IQBasePtr (fold g ds s) = IQBasePtr s"
    and "FrameLength (fold g ds s) = FrameLength s"
    and "DDCCounts (fold g ds s) = DDCCounts s"
    and "Active (fold g ds s) d = (d \<in> set ds \<or> Active s d)"
  unfolding g_def by (induction ds arbitrary: s) auto

lemma alloc_fold_frame:
  fixes ds :: "nat list"
  defines "g \<equiv> (\<lambda>DDC s. s\<lparr>IQReadPtr := (IQReadPtr s)(DDC := VBASE),
                           IQHeadPtr := (IQHeadPtr s)(DDC := VBASE),
                           IQBasePtr := (IQBasePtr s)(DDC := VBASE)\<rparr>)"
  shows "DMATransferSize (fold g ds s) = DMATransferSize s"
    and "trace (fold g ds s) = trace s"
    and "DMAReadPtr (fold g ds s) = DMAReadPtr s"
    and "DMAHeadPtr (fold g ds s) = DMAHeadPtr s"
    and "DMABasePtr (fold g ds s) = DMABasePtr s"
    and "DMAReadBuffer (fold g ds s) = DMAReadBuffer s"
    and "HeaderFound (fold g ds s) = HeaderFound s"
    and "n_sdr (fold g ds s) = n_sdr s"
    and "n_fifo (fold g ds s) = n_fifo s"
    and "PrevRateWord (fold g ds s) = PrevRateWord s"
    and "n_idle (fold g ds s) = n_idle s"
    and "n_send (fold g ds s) = n_send s"
    and "Active (fold g ds s) = Active s"
    and "FrameLength (fold g ds s) = FrameLength s"
    and "DDCCounts (fold g ds s) = DDCCounts s"
    and "IQReadPtr (fold g ds s) d = (if d \<in> set ds then VBASE else IQReadPtr s d)"
    and "IQHeadPtr (fold g ds s) d = (if d \<in> set ds then VBASE else IQHeadPtr s d)"
    and "IQBasePtr (fold g ds s) d = (if d \<in> set ds then VBASE else IQBasePtr s d)"
  unfolding g_def by (induction ds arbitrary: s) auto

lemma thread_init_Continue:
  "\<not> alloc_fails e \<Longrightarrow> thread_init e s = Continue (state_of (thread_init e s))"
  by (simp add: thread_init_def CreateDynamicMemory_def Let_def split_beta)

lemma thread_init_segfault:
  "alloc_fails e \<Longrightarrow>
     thread_init e s =
       ProcessExit (s\<lparr>PrevRateWord := 0xFFFFFFFF, DMATransferSize := VDMATRANSFERSIZE,
                      DMAReadPtr := VBASE, DMAHeadPtr := VBASE, DMABasePtr := VBASE,
                      trace := trace s @ [EvSegfault]\<rparr>)"
  by (simp add: thread_init_def CreateDynamicMemory_def Let_def segfault_def)

lemma thread_init_DMATransferSize:
  "DMATransferSize (state_of (thread_init e s)) = 4096"
  by (simp add: thread_init_def CreateDynamicMemory_def Let_def ReadFIFOMonitorChannel_def
      usleep_def SetRXDDCEnabled_def VDMATRANSFERSIZE_def init_fold_frame alloc_fold_frame
      segfault_def)

lemma thread_init_frame:
  assumes "\<not> alloc_fails e"
  shows "DMATransferSize (state_of (thread_init e s)) = 4096"
  "trace (state_of (thread_init e s)) =
     trace s @ [EvOpenDevice, EvSetRXDDCEnabled False, EvUsleep 1000, EvSetupFIFOMonitorChannel,
                EvResetDMAStreamFIFO, EvReadFIFOMonitorChannel]"
  "InitError (state_of (thread_init e s)) = (open_result e < 0)"
  "DMAReadPtr (state_of (thread_init e s)) = VBASE"
  "DMAHeadPtr (state_of (thread_init e s)) = VBASE"
  "DMABasePtr (state_of (thread_init e s)) = VBASE"
  "DMAReadBuffer (state_of (thread_init e s)) = memset (DMAReadBuffer s) 0 0 VDMABUFFERSIZE"
  "HeaderFound (state_of (thread_init e s)) = HeaderFound s"
  "n_sdr (state_of (thread_init e s)) = n_sdr s"
  "n_fifo (state_of (thread_init e s)) = Suc (n_fifo s)"
  "PrevRateWord (state_of (thread_init e s)) = 0xFFFFFFFF"
  "n_idle (state_of (thread_init e s)) = n_idle s"
  "n_send (state_of (thread_init e s)) = n_send s"
  "Active (state_of (thread_init e s)) d = (d < VNUMDDC e \<or> Active s d)"
  "IQReadPtr (state_of (thread_init e s)) d = (if d < VNUMDDC e then VBASE else IQReadPtr s d)"
  "IQHeadPtr (state_of (thread_init e s)) d = (if d < VNUMDDC e then VBASE else IQHeadPtr s d)"
  "IQBasePtr (state_of (thread_init e s)) d = (if d < VNUMDDC e then VBASE else IQBasePtr s d)"
  "FrameLength (state_of (thread_init e s)) = FrameLength s"
  "DDCCounts (state_of (thread_init e s)) = DDCCounts s"
  using assms
  by (simp_all add: thread_init_def CreateDynamicMemory_def Let_def ReadFIFOMonitorChannel_def
      usleep_def SetRXDDCEnabled_def VDMATRANSFERSIZE_def init_fold_frame alloc_fold_frame)

subsection \<open>Burst size\<close>

lemma poll_fifo_Depth:
  "Depth (poll_fifo e s) = rd_value (fifo_monitor e (n_fifo s))"
  "n_fifo (poll_fifo e s) = Suc (n_fifo s)"
  "DMATransferSize (poll_fifo e s) = DMATransferSize s"
  by (simp_all add: poll_fifo_def ReadFIFOMonitorChannel_def Let_def)

lemma usleep_frame:
  "Depth (usleep n s) = Depth s" "n_fifo (usleep n s) = n_fifo s"
  "DMATransferSize (usleep n s) = DMATransferSize s"
  by (simp_all add: usleep_def)

lemma wait_fifo_Continue:
  assumes "wait_fifo e f s = Continue s1"
    and "0 < n_fifo s \<and> Depth s = rd_value (fifo_monitor e (n_fifo s - 1))"
  shows "\<not> Depth s1 < DMATransferSize s1 div 8 \<and> DMATransferSize s1 = DMATransferSize s \<and>
         0 < n_fifo s1 \<and> Depth s1 = rd_value (fifo_monitor e (n_fifo s1 - 1))"
  using assms
proof (induction f arbitrary: s)
  case 0
  then show ?case by simp
next
  case (Suc f)
  show ?case
  proof (cases "Depth s < DMATransferSize s div 8")
    case False
    with Suc.prems show ?thesis by simp
  next
    case True
    let ?s' = "poll_fifo e (usleep 500 s)"
    from True Suc.prems(1) have "wait_fifo e f ?s' = Continue s1"
      by simp
    moreover have "0 < n_fifo ?s' \<and> Depth ?s' = rd_value (fifo_monitor e (n_fifo ?s' - 1))"
      by (simp add: poll_fifo_Depth usleep_frame)
    ultimately have "\<not> Depth s1 < DMATransferSize s1 div 8 \<and> DMATransferSize s1 = DMATransferSize ?s' \<and>
         0 < n_fifo s1 \<and> Depth s1 = rd_value (fifo_monitor e (n_fifo s1 - 1))"
      by (rule Suc.IH)
    moreover have "DMATransferSize ?s' = DMATransferSize s"
      by (simp add: poll_fifo_Depth usleep_frame)
    ultimately show ?thesis
      by metis
  qed
qed

lemma burst_fits:
  fixes D T :: u32
  assumes "T \<in> {4096, 8192, 16384, 32768}" and "\<not> D < T div 8"
  shows "unat (if D > 4096 then 32768 else if D > 2048 then 16384 else if D > 1024 then 8192 else 4096 :: u32) div 8
           \<le> unat D"
proof -
  have "512 \<le> T div 8"
    using assms(1) by auto
  with assms(2) have "512 \<le> D"
    by (simp add: not_less)
  then have "512 \<le> unat D"
    by (simp add: word_le_nat_alt)
  moreover have "D > 4096 \<Longrightarrow> 4096 < unat D" "D > 2048 \<Longrightarrow> 2048 < unat D" "D > 1024 \<Longrightarrow> 1024 < unat D"
    by (simp_all add: word_less_nat_alt)
  ultimately show ?thesis
    by auto
qed


lemma dma_read_trace:
  "trace (dma_read e s) = trace s @ [EvDMAReadFromFPGA (DMAHeadPtr s) (DMATransferSize s)]"
  "DMATransferSize (dma_read e s) = DMATransferSize s"
  by (simp_all add: dma_read_def)

lemma select_transfer_size_frame:
  "DMATransferSize (select_transfer_size s) =
     (if Depth s > 4096 then 32768 else if Depth s > 2048 then 16384
      else if Depth s > 1024 then 8192 else 4096)"
  "trace (select_transfer_size s) = trace s"
  "DMAHeadPtr (select_transfer_size s) = DMAHeadPtr s"
  by (simp_all add: select_transfer_size_def)

lemma burst_size_kept:
  assumes "DMATransferSize s \<in> {4096, 8192, 16384, 32768}"
  shows "DMATransferSize (state_of (stream_iter e f s)) \<in> {4096, 8192, 16384, 32768}"
proof (rule stream_iter_invariant [of e "\<lambda>s. DMATransferSize s \<in> {4096, 8192, 16384, 32768}"])
  fix s :: state and d
  assume "DMATransferSize s \<in> {4096, 8192, 16384, 32768}"
  then show "DMATransferSize (emit_packet e d s) \<in> {4096, 8192, 16384, 32768}"
    by (simp add: emit_packet_def Let_def)
next
  fix s s' :: state
  assume "DMATransferSize s \<in> {4096, 8192, 16384, 32768}" and "quiet s s'"
  then show "DMATransferSize s' \<in> {4096, 8192, 16384, 32768}"
    unfolding quiet_def by auto
qed (rule assms)

text \<open>
  C7. Let line 210 be reached in a state \<open>s\<close> whose burst size is one of the four, and let the
  wait of line 217 end, in state \<open>s1\<close>. Then the size chosen by lines 228 to 235 follows the
  thresholds on \<open>Depth\<close>, is one of 4096, 8192, 16384 and 32768, and is the size passed to the
  DMA read; \<open>Depth\<close> is then the value of the last reading of the FIFO monitor, and a eighth
  of the chosen size is at most that depth. The burst size is 4096 after the thread's
  initialisation and is again one of the four after every pass of the streaming loop.
\<close>

theorem burst_size:
  assumes "DMATransferSize s \<in> {4096, 8192, 16384, 32768}"
    and "wait_fifo e f (poll_fifo e s) = Continue s1"
  shows "DMATransferSize (select_transfer_size s1) =
           (if Depth s1 > 4096 then 32768 else if Depth s1 > 2048 then 16384
            else if Depth s1 > 1024 then 8192 else 4096) \<and>
         DMATransferSize (select_transfer_size s1) \<in> {4096, 8192, 16384, 32768} \<and>
         trace (dma_read e (select_transfer_size s1)) =
           trace s1 @ [EvDMAReadFromFPGA (DMAHeadPtr s1) (DMATransferSize (select_transfer_size s1))] \<and>
         0 < n_fifo s1 \<and> Depth s1 = rd_value (fifo_monitor e (n_fifo s1 - 1)) \<and>
         unat (DMATransferSize (select_transfer_size s1)) div 8 \<le> unat (Depth s1) \<and>
         DMATransferSize (state_of (thread_init e s0)) = 4096 \<and>
         DMATransferSize (state_of (stream_iter e f' s)) \<in> {4096, 8192, 16384, 32768}"
proof -
  have "0 < n_fifo (poll_fifo e s) \<and>
        Depth (poll_fifo e s) = rd_value (fifo_monitor e (n_fifo (poll_fifo e s) - 1))"
    by (simp add: poll_fifo_Depth)
  from wait_fifo_Continue [OF assms(2) this, unfolded poll_fifo_Depth(3)]
  have w: "\<not> Depth s1 < DMATransferSize s1 div 8" "DMATransferSize s1 = DMATransferSize s"
    "0 < n_fifo s1" "Depth s1 = rd_value (fifo_monitor e (n_fifo s1 - 1))"
    by blast+
  have fits: "unat (DMATransferSize (select_transfer_size s1)) div 8 \<le> unat (Depth s1)"
    unfolding select_transfer_size_frame
    by (rule burst_fits [of "DMATransferSize s1"]) (use w assms(1) in simp_all)
  have init: "DMATransferSize (state_of (thread_init e s0)) = 4096"
    by (rule thread_init_DMATransferSize)
  have sel: "DMATransferSize (select_transfer_size s1) \<in> {4096, 8192, 16384, 32768}"
    by (simp add: select_transfer_size_frame)
  show ?thesis
    using fits init sel w(3,4) burst_size_kept [OF assms(1), of e f']
    by (simp add: dma_read_trace select_transfer_size_frame)
qed


theorem burst_size_witness:
  "DMATransferSize (state_of (thread_init env0 state0)) \<in> {4096, 8192, 16384, 32768} \<and>
   wait_fifo env0 1 (poll_fifo env0 (state_of (thread_init env0 state0))) =
     Continue (poll_fifo env0 (state_of (thread_init env0 state0))) \<and>
   Depth (poll_fifo env0 (state_of (thread_init env0 state0))) = 512 \<and>
   DMATransferSize (select_transfer_size (poll_fifo env0 (state_of (thread_init env0 state0)))) = 4096 \<and>
   unat (DMATransferSize (select_transfer_size (poll_fifo env0 (state_of (thread_init env0 state0))))) div 8
     \<le> unat (Depth (poll_fifo env0 (state_of (thread_init env0 state0))))"
proof -
  let ?s = "state_of (thread_init env0 state0)"
  have a: "DMATransferSize ?s \<in> {4096, 8192, 16384, 32768}"
    by (simp add: thread_init_DMATransferSize)
  have d: "Depth (poll_fifo env0 ?s) = 512"
    by (simp add: poll_fifo_Depth env0_def)
  have "\<not> Depth (poll_fifo env0 ?s) < DMATransferSize (poll_fifo env0 ?s) div 8"
    unfolding d by (simp add: poll_fifo_Depth thread_init_DMATransferSize)
  then have w: "wait_fifo env0 1 (poll_fifo env0 ?s) = Continue (poll_fifo env0 ?s)"
    by simp
  show ?thesis
    using a w d burst_size [OF a w, of state0 0] by simp
qed

subsection \<open>The driver\<close>

lemma loop_ext_refl: "loop_ext s s"
  unfolding loop_ext_def by (intro conjI exI [of _ "[]"]) simp_all

lemma loop_ext_trans:
  assumes "loop_ext s s1" and "loop_ext s1 s2"
  shows "loop_ext s s2"
proof -
  from assms(1) obtain es1 where a: "Active s1 = Active s" "trace s1 = trace s @ es1" "list_all loop_event es1"
    unfolding loop_ext_def by blast
  from assms(2) obtain es2 where b: "Active s2 = Active s1" "trace s2 = trace s1 @ es2" "list_all loop_event es2"
    unfolding loop_ext_def by blast
  show ?thesis
    unfolding loop_ext_def
    by (intro conjI exI [of _ "es1 @ es2"]) (simp_all add: a b)
qed

lemma quiet_event_loop_event: "quiet_event ev \<Longrightarrow> loop_event ev"
  by (cases ev) simp_all

lemma loop_ext_quiet:
  assumes "quiet s s'"
  shows "loop_ext s s'"
proof -
  from assms obtain qs where q: "Active s' = Active s" "trace s' = trace s @ qs" "list_all quiet_event qs"
    unfolding quiet_def by blast
  have "list_all loop_event qs"
    using q(3) by (induction qs) (simp_all add: quiet_event_loop_event)
  then show ?thesis
    unfolding loop_ext_def using q by blast
qed

lemma loop_ext_emit_packet: "loop_ext s (emit_packet e d s)"
proof -
  obtain p where "trace (emit_packet e d s) = trace s @ [EvSendmsg d (datagram s d) p]"
    using emit_packet_event by blast
  moreover have "Active (emit_packet e d s) = Active s"
    by (simp add: emit_packet_def Let_def)
  ultimately show ?thesis
    unfolding loop_ext_def by (intro conjI exI [of _ "[EvSendmsg d (datagram s d) p]"]) simp_all
qed

lemma loop_ext_streaming_loop: "loop_ext s (state_of (streaming_loop e f s))"
proof (rule streaming_loop_invariant [of e "loop_ext s"])
  fix s1 :: state and d
  assume "loop_ext s s1"
  then show "loop_ext s (emit_packet e d s1)"
    using loop_ext_trans loop_ext_emit_packet by blast
next
  fix s1 s' :: state
  assume "loop_ext s s1" and "quiet s1 s'"
  then show "loop_ext s s'"
    using loop_ext_trans loop_ext_quiet by blast
qed (rule loop_ext_refl)

lemma loop_ext_arming: "loop_ext s (arming e s)"
  unfolding loop_ext_def
  by (intro conjI exI [of _ "[EvSetRXDDCEnabled True]"]) (simp_all add: arming_frame)

lemma loop_ext_idle_fold: "loop_ext s (fold (idle_ddc e) ds s)"
proof (induction ds arbitrary: s)
  case Nil
  show ?case by (simp add: loop_ext_refl)
next
  case (Cons d ds)
  have "loop_ext s (idle_ddc e d s)"
    unfolding loop_ext_def idle_ddc_def
    by (cases "change_port e (n_idle s) d")
       (auto intro: exI [of _ "[EvCloseSocket d, EvMakeSocket d]"])
  then show ?case
    using Cons.IH loop_ext_trans by simp
qed

lemma loop_ext_idle_loop: "loop_ext s (state_of (idle_loop e f s))"
proof (induction f arbitrary: s)
  case 0
  show ?case by (simp add: loop_ext_refl)
next
  case (Suc f)
  let ?s1 = "snd (read_SDRActive e s)"
  let ?s2 = "usleep 100 ((fold (idle_ddc e) [0..<VNUMDDC e] ?s1)\<lparr>n_idle := Suc (n_idle ?s1)\<rparr>)"
  have a: "loop_ext s ?s1"
    by (rule loop_ext_quiet [OF quiet_read_SDRActive])
  have "loop_ext (fold (idle_ddc e) [0..<VNUMDDC e] ?s1) ?s2"
    unfolding loop_ext_def usleep_def
    by (intro conjI exI [of _ "[EvUsleep 100]"]) simp_all
  then have "loop_ext ?s1 ?s2"
    using loop_ext_trans loop_ext_idle_fold by blast
  then have "loop_ext s (state_of (idle_loop e f ?s2))"
    using a Suc.IH loop_ext_trans by blast
  then show ?case
    using a by (simp add: split_beta)
qed


lemma loop_ext_main_loop: "loop_ext s (state_of (main_loop e f s))"
proof (induction f arbitrary: s)
  case 0
  show ?case by (simp add: loop_ext_refl)
next
  case (Suc f)
  show ?case
  proof (cases "InitError s")
    case True
    then show ?thesis by (simp add: loop_ext_refl)
  next
    case False
    have i: "loop_ext s (state_of (idle_loop e f s))"
      by (rule loop_ext_idle_loop)
    show ?thesis
    proof (cases "idle_loop e f s")
      case (Continue s1)
      have s1: "loop_ext s s1"
        using i by (simp add: Continue)
      have a: "loop_ext s1 (state_of (streaming_loop e f (arming e s1)))"
        using loop_ext_trans loop_ext_arming loop_ext_streaming_loop by blast
      show ?thesis
      proof (cases "streaming_loop e f (arming e s1)")
        case (Continue s2)
        have "loop_ext s1 s2" using a by (simp add: Continue)
        then have "loop_ext s (state_of (main_loop e f s2))"
          using s1 Suc.IH loop_ext_trans by blast
        then show ?thesis
          using False \<open>idle_loop e f s = Continue s1\<close> Continue by simp
      next
        case (ProcessExit s2)
        have "loop_ext s1 s2" using a by (simp add: ProcessExit)
        then show ?thesis
          using False \<open>idle_loop e f s = Continue s1\<close> ProcessExit s1 loop_ext_trans by auto
      next
        case (OutOfFuel s2)
        have "loop_ext s1 s2" using a by (simp add: OutOfFuel)
        then show ?thesis
          using False \<open>idle_loop e f s = Continue s1\<close> OutOfFuel s1 loop_ext_trans by auto
      qed
    next
      case (ProcessExit s1)
      then show ?thesis using i False by simp
    next
      case (OutOfFuel s1)
      then show ?thesis using i False by simp
    qed
  qed
qed















lemma loop_event_not_disable: "list_all loop_event es \<Longrightarrow> EvSetRXDDCEnabled False \<notin> set es"
  by (induction es) auto


text \<open>
  C9, amended. When \<open>SDRActive\<close> is read false at line 175 the streaming loop ends at once:
  nothing changes but the count of reads of the flag, no ring is compacted and nothing is
  called. The loop of line 144 then starts its next pass, which waits in the idle loop of
  line 146. Nothing that loop calls, in any run and for any length of it, is
  \<open>SetRXDDCEnabled(false)\<close>: the only such call is the one the thread makes when it starts
  (none at all when the allocation of line 59 fails, which ends the process at line 68). The
  shutdown code of lines 312 to 316 calls \<open>close\<close> and \<open>free\<close> only.
\<close>

theorem leaving_streaming:
  "(\<not> InitError s \<and> \<not> SDRActive e (n_sdr s) \<longrightarrow>
      streaming_loop e (Suc f) s = Continue (s\<lparr>n_sdr := Suc (n_sdr s)\<rparr>)) \<and>
   main_loop e (Suc f) s =
     (if InitError s then Continue s
      else and_then (idle_loop e f s)
             (\<lambda>s1. and_then (streaming_loop e f (arming e s1)) (main_loop e f))) \<and>
   (\<exists>es. trace (state_of (main_loop e f s)) = trace s @ es \<and> EvSetRXDDCEnabled False \<notin> set es) \<and>
   trace (state_of (thread_init e s)) =
     trace s @ (if alloc_fails e then [EvSegfault]
                else [EvOpenDevice, EvSetRXDDCEnabled False, EvUsleep 1000,
                      EvSetupFIFOMonitorChannel, EvResetDMAStreamFIFO, EvReadFIFOMonitorChannel]) \<and>
   trace (shutdown s) = trace s @ [EvCloseSocket 0, EvFreeDynamicMemory]"
proof -
  have init: "trace (state_of (thread_init e s)) =
     trace s @ (if alloc_fails e then [EvSegfault]
                else [EvOpenDevice, EvSetRXDDCEnabled False, EvUsleep 1000,
                      EvSetupFIFOMonitorChannel, EvResetDMAStreamFIFO, EvReadFIFOMonitorChannel])"
    by (cases "alloc_fails e") (simp_all add: thread_init_segfault thread_init_frame)
  from loop_ext_main_loop [of s e f] obtain es where
    "trace (state_of (main_loop e f s)) = trace s @ es" "list_all loop_event es"
    unfolding loop_ext_def by blast
  then have "\<exists>es. trace (state_of (main_loop e f s)) = trace s @ es \<and> EvSetRXDDCEnabled False \<notin> set es"
    using loop_event_not_disable by blast
  then show ?thesis
    using init by (simp add: read_SDRActive_def shutdown_def)
qed


theorem leaving_streaming_witness:
  "\<not> InitError (state0\<lparr>n_sdr := 2\<rparr>) \<and> \<not> SDRActive env0 (n_sdr (state0\<lparr>n_sdr := 2\<rparr>)) \<and>
   streaming_loop env0 (Suc 0) (state0\<lparr>n_sdr := 2\<rparr>) = Continue (state0\<lparr>n_sdr := 3\<rparr>)"
proof -
  have a: "\<not> InitError (state0\<lparr>n_sdr := 2\<rparr>)" "\<not> SDRActive env0 (n_sdr (state0\<lparr>n_sdr := 2\<rparr>))"
    by (simp_all add: state0_def env0_def)
  have "streaming_loop env0 (Suc 0) (state0\<lparr>n_sdr := 2\<rparr>) =
          Continue (state0\<lparr>n_sdr := 2, n_sdr := Suc (n_sdr (state0\<lparr>n_sdr := 2\<rparr>))\<rparr>)"
    using a leaving_streaming [of "state0\<lparr>n_sdr := 2\<rparr>" env0 0] by blast
  then show ?thesis
    using a by simp
qed

subsection \<open>Concrete runs\<close>

lemma compact_iq_idle: "\<not> IQReadPtr s d > IQBasePtr s d \<Longrightarrow> compact_iq d s = s"
  by (simp add: compact_iq_def Let_def)

lemma drain_fold_idle:
  assumes "\<forall>d\<in>set ds. \<not> IQHeadPtr s d - IQReadPtr s d > 1428 \<and> \<not> IQReadPtr s d > IQBasePtr s d"
  shows "fold (\<lambda>DDC s. compact_iq DDC (drain_ddc e DDC s)) ds s = s"
  using assms by (induction ds) (simp_all add: drain_ddc_stop compact_iq_idle)

lemma drain_all_idle:
  assumes "\<forall>d<VNUMDDC e. \<not> IQHeadPtr s d - IQReadPtr s d > 1428 \<and> \<not> IQReadPtr s d > IQBasePtr s d"
  shows "drain_all e s = s"
  unfolding drain_all_def by (rule drain_fold_idle) (use assms in simp)

lemma arming_rings:
  "DMAReadPtr (arming e s) = DMAReadPtr s" "DMAHeadPtr (arming e s) = DMAHeadPtr s"
  "DMABasePtr (arming e s) = DMABasePtr s" "DMAReadBuffer (arming e s) = DMAReadBuffer s"
  "IQReadPtr (arming e s) = IQReadPtr s" "IQHeadPtr (arming e s) = IQHeadPtr s"
  "IQBasePtr (arming e s) = IQBasePtr s" "PrevRateWord (arming e s) = PrevRateWord s"
  "n_fifo (arming e s) = n_fifo s" "n_idle (arming e s) = n_idle s"
proof -
  have "DMAReadPtr (fold (arm_ddc e) ds s) = DMAReadPtr s \<and> DMAHeadPtr (fold (arm_ddc e) ds s) = DMAHeadPtr s \<and>
        DMABasePtr (fold (arm_ddc e) ds s) = DMABasePtr s \<and> DMAReadBuffer (fold (arm_ddc e) ds s) = DMAReadBuffer s \<and>
        IQReadPtr (fold (arm_ddc e) ds s) = IQReadPtr s \<and> IQHeadPtr (fold (arm_ddc e) ds s) = IQHeadPtr s \<and>
        IQBasePtr (fold (arm_ddc e) ds s) = IQBasePtr s \<and> PrevRateWord (fold (arm_ddc e) ds s) = PrevRateWord s \<and>
        n_fifo (fold (arm_ddc e) ds s) = n_fifo s \<and> n_idle (fold (arm_ddc e) ds s) = n_idle s" for ds s
    by (induction ds arbitrary: s) (simp_all add: arm_ddc_def)
  then show "DMAReadPtr (arming e s) = DMAReadPtr s" "DMAHeadPtr (arming e s) = DMAHeadPtr s"
    "DMABasePtr (arming e s) = DMABasePtr s" "DMAReadBuffer (arming e s) = DMAReadBuffer s"
    "IQReadPtr (arming e s) = IQReadPtr s" "IQHeadPtr (arming e s) = IQHeadPtr s"
    "IQBasePtr (arming e s) = IQBasePtr s" "PrevRateWord (arming e s) = PrevRateWord s"
    "n_fifo (arming e s) = n_fifo s" "n_idle (arming e s) = n_idle s"
    by (simp_all add: arming_def Let_def SetRXDDCEnabled_def)
qed


lemma idle_fold_none: "\<forall>d. \<not> change_port e (n_idle s) d \<Longrightarrow> fold (idle_ddc e) ds s = s"
  by (induction ds) (simp_all add: idle_ddc_def)

lemma idle_loop_active:
  "SDRActive e (n_sdr s) \<Longrightarrow> idle_loop e (Suc f) s = Continue (s\<lparr>n_sdr := Suc (n_sdr s)\<rparr>)"
  by (simp add: read_SDRActive_def)

lemma idle_loop_asleep:
  assumes "\<not> SDRActive e (n_sdr s)" and "\<forall>d. \<not> change_port e (n_idle s) d"
  shows "idle_loop e (Suc 0) s = OutOfFuel (usleep 100 (s\<lparr>n_sdr := Suc (n_sdr s), n_idle := Suc (n_idle s)\<rparr>))"
proof -
  have "fold (idle_ddc e) [0..<VNUMDDC e] (s\<lparr>n_sdr := Suc (n_sdr s)\<rparr>) = s\<lparr>n_sdr := Suc (n_sdr s)\<rparr>"
    by (rule idle_fold_none) (use assms(2) in simp)
  then show ?thesis
    using assms(1) by (simp add: read_SDRActive_def)
qed

lemma streaming_loop_pass:
  "\<not> InitError s \<Longrightarrow> SDRActive e (n_sdr s) \<Longrightarrow>
   streaming_loop e (Suc f) s = and_then (stream_iter e f (s\<lparr>n_sdr := Suc (n_sdr s)\<rparr>)) (streaming_loop e f)"
  by (simp add: read_SDRActive_def)

lemma streaming_loop_stop:
  "\<not> InitError s \<Longrightarrow> \<not> SDRActive e (n_sdr s) \<Longrightarrow>
   streaming_loop e (Suc f) s = Continue (s\<lparr>n_sdr := Suc (n_sdr s)\<rparr>)"
  by (simp add: read_SDRActive_def)

lemma main_loop_pass:
  "\<not> InitError s \<Longrightarrow>
   main_loop e (Suc f) s =
     and_then (idle_loop e f s) (\<lambda>s1. and_then (streaming_loop e f (arming e s1)) (main_loop e f))"
  by simp

declare idle_loop.simps [simp del] streaming_loop.simps [simp del] main_loop.simps [simp del]

lemma env1_simps:
  "VNUMDDC env1 = 2" "alloc_fails env1 = False" "open_result env1 = 3"
  "SDRActive env1 n = (n < 2)" "change_port env1 n d = False"
  "rd_value (fifo_monitor env1 n) = 512" "rd_overthreshold (fifo_monitor env1 n) = False"
  "dma_data env1 n a = 0x80" "AnalyseDDCHeader env1 r c = (600, c)"
  by (simp_all add: env1_def env0_def)

lemma run_stop_pass:
  fixes t0 :: state
  defines "t0 \<equiv> state_of (thread_init env1 state0)"
  shows "\<exists>t. stream_iter env1 (Suc 0) ((arming env1 (t0\<lparr>n_sdr := 1\<rparr>))\<lparr>n_sdr := 2\<rparr>) = Continue t \<and>
             \<not> InitError t \<and> n_sdr t = 2 \<and> n_idle t = 0 \<and>
             trace t = trace t0 @ [EvSetRXDDCEnabled True, EvReadFIFOMonitorChannel,
                                   EvDMAReadFromFPGA 4096 4096] \<and>
             DMABasePtr t = 4096 \<and> DMAReadPtr t = 16 \<and> DMAHeadPtr t = 4096"
proof -
  define t2 where "t2 = (arming env1 (t0\<lparr>n_sdr := 1\<rparr>))\<lparr>n_sdr := 2\<rparr>"
  have t2: "InitError t2 = False" "n_sdr t2 = 2" "n_idle t2 = 0" "HeaderFound t2 = False"
    "trace t2 = trace t0 @ [EvSetRXDDCEnabled True]"
    "DMAReadPtr t2 = 4096" "DMAHeadPtr t2 = 4096" "DMABasePtr t2 = 4096"
    "DMATransferSize t2 = 4096" "PrevRateWord t2 = 0xFFFFFFFF"
    "\<And>d. d < 2 \<Longrightarrow> IQReadPtr t2 d = 4096" "\<And>d. d < 2 \<Longrightarrow> IQHeadPtr t2 d = 4096"
    "\<And>d. d < 2 \<Longrightarrow> IQBasePtr t2 d = 4096"
    by (simp_all add: t2_def t0_def arming_frame arming_rings thread_init_frame env1_simps
        state0_def VBASE_def)
  have d: "drain_all env1 t2 = t2"
    by (rule drain_all_idle) (simp add: env1_simps t2)
  define t3 where "t3 = poll_fifo env1 t2"
  have t3: "InitError t3 = False" "n_sdr t3 = 2" "n_idle t3 = 0" "HeaderFound t3 = False"
    "trace t3 = trace t0 @ [EvSetRXDDCEnabled True, EvReadFIFOMonitorChannel]"
    "DMAReadPtr t3 = 4096" "DMAHeadPtr t3 = 4096" "DMABasePtr t3 = 4096"
    "DMATransferSize t3 = 4096" "PrevRateWord t3 = 0xFFFFFFFF" "Depth t3 = 512"
    by (simp_all add: t3_def poll_fifo_def ReadFIFOMonitorChannel_def Let_def t2 env1_simps)
  have w: "wait_fifo env1 (Suc 0) t3 = Continue t3"
    by (simp add: t3)
  define t4 where "t4 = dma_read env1 (select_transfer_size t3)"
  have t4: "InitError t4 = False" "n_sdr t4 = 2" "n_idle t4 = 0" "HeaderFound t4 = False"
    "trace t4 = trace t0 @ [EvSetRXDDCEnabled True, EvReadFIFOMonitorChannel, EvDMAReadFromFPGA 4096 4096]"
    "DMAReadPtr t4 = 4096" "DMAHeadPtr t4 = 8192" "DMABasePtr t4 = 4096"
    "PrevRateWord t4 = 0xFFFFFFFF"
    "\<And>a. 4096 \<le> a \<Longrightarrow> a < 8192 \<Longrightarrow> DMAReadBuffer t4 a = 0x80"
    by (simp_all add: t4_def dma_read_def select_transfer_size_def t3 env1_simps memcpy_def)
  define t5 where "t5 = t4\<lparr>HeaderFound := True, DMAReadPtr := 4112\<rparr>"
  have "sync_scan (Suc 0) 16 t4 = Continue t5"
    by (simp add: t4 t5_def)
  then have a: "acquire_sync (Suc 0) t4 = Continue t5"
    by (simp add: acquire_sync_def t4 t5_def)
  have t5: "InitError t5 = False" "n_sdr t5 = 2" "n_idle t5 = 0"
    "trace t5 = trace t4" "DMAReadPtr t5 = 4112" "DMAHeadPtr t5 = 8192" "DMABasePtr t5 = 4096"
    "PrevRateWord t5 = 0xFFFFFFFF"
    "\<And>a. 4096 \<le> a \<Longrightarrow> a < 8192 \<Longrightarrow> DMAReadBuffer t5 a = 0x80"
    by (simp_all add: t5_def t4)
  have rw: "load_u32 (DMAReadBuffer t5) 4112 = 0x80808080"
    by (simp add: load_u32_def t5)
  define t6 where "t6 = decode_header env1 t5"
  have t6: "InitError t6 = False" "n_sdr t6 = 2" "n_idle t6 = 0"
    "trace t6 = trace t4" "FrameLength t6 = 600" "DMAReadPtr t6 = 4112" "DMAHeadPtr t6 = 8192"
    "DMABasePtr t6 = 4096"
    by (simp_all add: t6_def decode_header_def Let_def t5 rw env1_simps)
  have p: "parse_frames env1 (Suc 0) (word_of_int (DMAHeadPtr t5 - DMAReadPtr t5)) t5 = Continue t6"
    by (simp add: t5 Let_def t6 [unfolded t6_def]) (simp add: t6_def)
  have it: "stream_iter env1 (Suc 0) t2 = Continue (compact_dma t6)"
    unfolding stream_iter_def d
    using w a p by (simp add: t3_def [symmetric] t4_def [symmetric])
  have c: "InitError (compact_dma t6) = False" "n_sdr (compact_dma t6) = 2" "n_idle (compact_dma t6) = 0"
    "trace (compact_dma t6) = trace t4"
    "DMABasePtr (compact_dma t6) = 4096" "DMAReadPtr (compact_dma t6) = 16"
    "DMAHeadPtr (compact_dma t6) = 4096"
    by (simp_all add: compact_dma_def Let_def t6)
  show ?thesis
    using it c t4(5) unfolding t2_def by simp
qed


text \<open>
  C9 fails as stated. The DMA delivers 0x80 bytes, \<open>SDRActive\<close> is true at its first two reads
  and false from then on. The thread arms, makes one pass of the streaming loop (one reading
  of the FIFO monitor, one DMA read), finds \<open>SDRActive\<close> false, and is next seen sleeping in the
  idle loop: after \<open>SetRXDDCEnabled(true)\<close> there is no call of \<open>SetRXDDCEnabled(false)\<close>.
\<close>

theorem idle_again_without_disable:
  "trace (state_of (main_loop env1 (Suc (Suc (Suc 0))) (state_of (thread_init env1 state0)))) =
     [EvOpenDevice, EvSetRXDDCEnabled False, EvUsleep 1000, EvSetupFIFOMonitorChannel,
      EvResetDMAStreamFIFO, EvReadFIFOMonitorChannel,
      EvSetRXDDCEnabled True, EvReadFIFOMonitorChannel, EvDMAReadFromFPGA 4096 4096,
      EvUsleep 100]"
proof -
  define t0 where "t0 = state_of (thread_init env1 state0)"
  define t1 where "t1 = arming env1 (t0\<lparr>n_sdr := 1\<rparr>)"
  have t0: "\<not> InitError t0" "SDRActive env1 (n_sdr t0)" "t0\<lparr>n_sdr := Suc (n_sdr t0)\<rparr> = t0\<lparr>n_sdr := 1\<rparr>"
    "trace t0 = [EvOpenDevice, EvSetRXDDCEnabled False, EvUsleep 1000, EvSetupFIFOMonitorChannel,
                 EvResetDMAStreamFIFO, EvReadFIFOMonitorChannel]"
    by (simp_all add: t0_def thread_init_frame env1_simps state0_def)
  have i: "idle_loop env1 (Suc (Suc 0)) t0 = Continue (t0\<lparr>n_sdr := 1\<rparr>)"
    using idle_loop_active [OF t0(2), of "Suc 0"] by (simp only: t0(3))
  obtain t where t: "stream_iter env1 (Suc 0) (t1\<lparr>n_sdr := 2\<rparr>) = Continue t"
    "\<not> InitError t" "n_sdr t = 2" "n_idle t = 0"
    "trace t = trace t0 @ [EvSetRXDDCEnabled True, EvReadFIFOMonitorChannel, EvDMAReadFromFPGA 4096 4096]"
    using run_stop_pass unfolding t0_def t1_def by blast
  have t1: "\<not> InitError t1" "SDRActive env1 (n_sdr t1)" "t1\<lparr>n_sdr := Suc (n_sdr t1)\<rparr> = t1\<lparr>n_sdr := 2\<rparr>"
    using t0(1) by (simp_all add: t1_def arming_frame env1_simps)
  have t': "\<not> InitError t" "\<not> SDRActive env1 (n_sdr t)" "t\<lparr>n_sdr := Suc (n_sdr t)\<rparr> = t\<lparr>n_sdr := 3\<rparr>"
    using t(2) by (simp_all add: t(3) env1_simps)
  have "streaming_loop env1 (Suc (Suc 0)) t1 =
          and_then (stream_iter env1 (Suc 0) (t1\<lparr>n_sdr := 2\<rparr>)) (streaming_loop env1 (Suc 0))"
    using streaming_loop_pass [OF t1(1,2), of "Suc 0"] by (simp only: t1(3))
  also have "\<dots> = streaming_loop env1 (Suc 0) t"
    by (simp add: t(1))
  also have "\<dots> = Continue (t\<lparr>n_sdr := 3\<rparr>)"
    using streaming_loop_stop [OF t'(1,2), of 0] by (simp only: t'(3))
  finally have sl: "streaming_loop env1 (Suc (Suc 0)) t1 = Continue (t\<lparr>n_sdr := 3\<rparr>)" .
  define t3 where "t3 = t\<lparr>n_sdr := 3\<rparr>"
  have t3: "\<not> InitError t3" "\<not> SDRActive env1 (n_sdr t3)" "\<forall>d. \<not> change_port env1 (n_idle t3) d"
    "trace t3 = trace t"
    using t(2) by (simp_all add: t3_def env1_simps)
  have "main_loop env1 (Suc (Suc (Suc 0))) t0 =
          and_then (streaming_loop env1 (Suc (Suc 0)) t1) (main_loop env1 (Suc (Suc 0)))"
    unfolding main_loop_pass [OF t0(1)] i t1_def by (simp only: and_then.simps)
  also have "\<dots> = main_loop env1 (Suc (Suc 0)) t3"
    unfolding sl t3_def by (simp only: and_then.simps)
  also have "\<dots> = OutOfFuel (usleep 100 (t3\<lparr>n_sdr := Suc (n_sdr t3), n_idle := Suc (n_idle t3)\<rparr>))"
    unfolding main_loop_pass [OF t3(1)] idle_loop_asleep [OF t3(2,3)] by (simp only: and_then.simps)
  finally show ?thesis
    unfolding t0_def [symmetric] by (simp add: usleep_def t3 t t0)
qed


subsection \<open>The latch of the fatal error\<close>

lemma latched_refl: "latched e s s"
  by (auto simp: latched_def)

lemma latched_trans:
  assumes "latched e s s1" and "latched e s1 s2"
  shows "latched e s s2"
proof -
  have n: "n_send s \<le> n_send s1" "n_send s1 \<le> n_send s2"
    using assms by (simp_all add: latched_def)
  have "InitError s2" if "InitError s"
    using that assms by (simp add: latched_def)
  moreover have "InitError s2" if k: "n_send s \<le> k" "k < n_send s2" "sendmsg_result e k = - 1" for k
  proof (cases "k < n_send s1")
    case True
    with k assms(1) have "InitError s1"
      unfolding latched_def by blast
    with assms(2) show ?thesis
      by (simp add: latched_def)
  next
    case False
    then have "n_send s1 \<le> k" by simp
    with k assms(2) show ?thesis
      unfolding latched_def by blast
  qed
  ultimately show ?thesis
    using n unfolding latched_def by auto
qed

lemma latched_same:
  assumes "n_send s' = n_send s" and "InitError s \<Longrightarrow> InitError s'"
  shows "latched e s s'"
  using assms by (auto simp: latched_def)

lemma latched_quiet: "quiet s s' \<Longrightarrow> latched e s s'"
  by (rule latched_same) (simp_all add: quiet_def)

lemma latched_emit_packet: "latched e s (emit_packet e d s)"
  unfolding latched_def emit_packet_send by (auto simp: le_less_Suc_eq)

lemma latched_stream_iter: "latched e s (state_of (stream_iter e f s))"
proof (rule stream_iter_invariant [of e "latched e s"])
  fix s' :: state and d
  assume "latched e s s'"
  then show "latched e s (emit_packet e d s')"
    using latched_trans latched_emit_packet by blast
next
  fix s' s'' :: state
  assume "latched e s s'" and "quiet s' s''"
  then show "latched e s s''"
    using latched_trans latched_quiet by blast
qed (rule latched_refl)





lemma loops_end_on_InitError:
  assumes "InitError s"
  shows "streaming_loop e (Suc f) s = Continue s" "main_loop e (Suc f) s = Continue s"
  using assms by (simp_all add: streaming_loop.simps main_loop.simps)

subsection \<open>A failed send\<close>

lemma drain_all_two:
  assumes "VNUMDDC e = 2"
  shows "drain_all e s = compact_iq 1 (drain_ddc e 1 (compact_iq 0 (drain_ddc e 0 s)))"
proof -
  have "[0..<2] = [0, 1]"
    by (simp add: upt_rec)
  then show ?thesis
    by (simp add: drain_all_def assms)
qed

lemma compact_iq_n_send: "n_send (compact_iq d s) = n_send s"
  by (simp add: compact_iq_def Let_def)

text \<open>
  C5, amended. A failed send sets \<open>InitError\<close>: after the drain loop the flag is set exactly
  when it was set before or one of the loop's calls of \<open>sendmsg\<close> returned -1. The loop does
  not stop at a failure: the number of calls it makes is fixed by the readable length alone,
  one call for each full frame that has at least one more byte behind it. The flag is read by
  the conditions of the loops of lines 175 and 144: it stays set to the end of the pass of the
  streaming loop in which a send failed, and a streaming loop and a loop of line 144 that
  find it set end at once, in the same state, without reading \<open>SDRActive\<close>. While the flag
  is not set the loop of line 175 goes by \<open>SDRActive\<close> alone.
\<close>

theorem drain_ddc_send_failure:
  "(InitError (drain_ddc e d s) \<longleftrightarrow>
      InitError s \<or> (\<exists>k. n_send s \<le> k \<and> k < n_send (drain_ddc e d s) \<and> sendmsg_result e k = - 1)) \<and>
   n_send (drain_ddc e d s) = n_send s + nat ((IQHeadPtr s d - IQReadPtr s d - 1) div 1428) \<and>
   (InitError s \<or> (\<exists>k. n_send s \<le> k \<and> k < n_send (state_of (stream_iter e f s)) \<and>
                        sendmsg_result e k = - 1)
      \<longrightarrow> InitError (state_of (stream_iter e f s))) \<and>
   (InitError s \<longrightarrow> streaming_loop e (Suc f) s = Continue s \<and> main_loop e (Suc f) s = Continue s) \<and>
   (\<not> InitError s \<longrightarrow>
      streaming_loop e (Suc f) s =
        (if SDRActive e (n_sdr s)
         then and_then (stream_iter e f (s\<lparr>n_sdr := Suc (n_sdr s)\<rparr>)) (streaming_loop e f)
         else Continue (s\<lparr>n_sdr := Suc (n_sdr s)\<rparr>)))"
proof -
  have a: "InitError (state_of (stream_iter e f s))"
    if "InitError s \<or> (\<exists>k. n_send s \<le> k \<and> k < n_send (state_of (stream_iter e f s)) \<and>
                            sendmsg_result e k = - 1)"
    using that latched_stream_iter [of e s f] unfolding latched_def by blast
  have b: "streaming_loop e (Suc f) s =
        (if SDRActive e (n_sdr s)
         then and_then (stream_iter e f (s\<lparr>n_sdr := Suc (n_sdr s)\<rparr>)) (streaming_loop e f)
         else Continue (s\<lparr>n_sdr := Suc (n_sdr s)\<rparr>))" if "\<not> InitError s"
    using that by (simp add: streaming_loop_pass streaming_loop_stop)
  show ?thesis
    using drain_ddc_InitError [of e d s] drain_ddc_n_send [of e d s] a b
      loops_end_on_InitError [of s e f]
    by blast
qed

theorem drain_ddc_send_failure_witness:
  "InitError (drain_ddc env_sendfail 0 state_two_frames) \<and>
   n_send (drain_ddc env_sendfail 0 state_two_frames) = 2 \<and>
   sendmsg_result env_sendfail 0 = - 1 \<and>
   0 < n_send (state_of (stream_iter env_sendfail 0 state_two_frames)) \<and>
   InitError (state_of (stream_iter env_sendfail 0 state_two_frames)) \<and>
   streaming_loop env_sendfail (Suc 0) (drain_ddc env_sendfail 0 state_two_frames) =
     Continue (drain_ddc env_sendfail 0 state_two_frames) \<and>
   main_loop env_sendfail (Suc 0) (drain_ddc env_sendfail 0 state_two_frames) =
     Continue (drain_ddc env_sendfail 0 state_two_frames) \<and>
   \<not> InitError state_two_frames \<and> SDRActive env_sendfail (n_sdr state_two_frames) \<and>
   streaming_loop env_sendfail (Suc 0) state_two_frames =
     and_then (stream_iter env_sendfail 0 (state_two_frames\<lparr>n_sdr := Suc (n_sdr state_two_frames)\<rparr>))
       (streaming_loop env_sendfail 0)"
proof -
  have n: "n_send (drain_ddc env_sendfail 0 state_two_frames) = 2"
    using drain_ddc_send_failure [of env_sendfail 0 state_two_frames]
    by (simp add: state_two_frames_simps)
  have f: "sendmsg_result env_sendfail 0 = - 1"
    by (simp add: env_sendfail_def)
  then have "\<exists>k. n_send state_two_frames \<le> k \<and> k < n_send (drain_ddc env_sendfail 0 state_two_frames)
               \<and> sendmsg_result env_sendfail k = - 1"
    unfolding n by (intro exI [of _ 0]) (simp add: state_two_frames_simps)
  then have i: "InitError (drain_ddc env_sendfail 0 state_two_frames)"
    using drain_ddc_send_failure [of env_sendfail 0 state_two_frames] by blast
  have "VNUMDDC env_sendfail = 2"
    by (simp add: env_sendfail_def env0_def)
  then have "n_send (drain_all env_sendfail state_two_frames) =
      n_send (drain_ddc env_sendfail 1
                (compact_iq 0 (drain_ddc env_sendfail 0 state_two_frames)))"
    by (simp add: drain_all_two compact_iq_n_send)
  then have "2 \<le> n_send (drain_all env_sendfail state_two_frames)"
    by (simp add: drain_ddc_n_send compact_iq_n_send state_two_frames_simps)
  moreover have "stream_iter env_sendfail 0 state_two_frames =
      OutOfFuel (poll_fifo env_sendfail (drain_all env_sendfail state_two_frames))"
    by (simp add: stream_iter_def)
  ultimately have p: "0 < n_send (state_of (stream_iter env_sendfail 0 state_two_frames))"
    by (simp add: poll_fifo_def ReadFIFOMonitorChannel_def Let_def)
  with f have "\<exists>k. n_send state_two_frames \<le> k \<and>
                   k < n_send (state_of (stream_iter env_sendfail 0 state_two_frames)) \<and>
                   sendmsg_result env_sendfail k = - 1"
    by (intro exI [of _ 0]) (simp add: state_two_frames_simps)
  then have l: "InitError (state_of (stream_iter env_sendfail 0 state_two_frames))"
    using drain_ddc_send_failure [of env_sendfail 0 state_two_frames 0] by blast
  have e: "streaming_loop env_sendfail (Suc 0) (drain_ddc env_sendfail 0 state_two_frames) =
             Continue (drain_ddc env_sendfail 0 state_two_frames) \<and>
           main_loop env_sendfail (Suc 0) (drain_ddc env_sendfail 0 state_two_frames) =
             Continue (drain_ddc env_sendfail 0 state_two_frames)"
    using i drain_ddc_send_failure [of env_sendfail 0
        "drain_ddc env_sendfail 0 state_two_frames" 0] by blast
  have g: "\<not> InitError state_two_frames" "SDRActive env_sendfail (n_sdr state_two_frames)"
    by (simp_all add: state_two_frames_def arm_ddc_def state0_def env_sendfail_def env0_def)
  then have "streaming_loop env_sendfail (Suc 0) state_two_frames =
     and_then (stream_iter env_sendfail 0 (state_two_frames\<lparr>n_sdr := Suc (n_sdr state_two_frames)\<rparr>))
       (streaming_loop env_sendfail 0)"
    using drain_ddc_send_failure [of env_sendfail 0 state_two_frames 0] by simp
  then show ?thesis
    using n f p l e i g by simp
qed

subsection \<open>The frame parser\<close>

lemma copy_samples_fst: "fst (copy_samples n src sp dp dst) = sp + 8 * int n"
  by (induction n arbitrary: sp dp dst) (simp_all add: Let_def)

lemma div_mod_shift6:
  fixes k :: int
  shows "(k - 6) div 6 = k div 6 - 1" and "(k - 6) mod 6 = k mod 6"
proof -
  have "k = (k - 6) + 6" by simp
  then have "k div 6 = ((k - 6) + 6) div 6" by simp
  also have "\<dots> = (k - 6) div 6 + 1" by (rule div_add_self2) simp
  finally show "(k - 6) div 6 = k div 6 - 1" by simp
  have "(k - 6 + 6) mod 6 = (k - 6) mod 6" by (rule mod_add_self2)
  then show "(k - 6) mod 6 = k mod 6" by simp
qed

lemma copy_samples_snd:
  "snd (copy_samples n src sp dp dst) a =
     (if dp \<le> a \<and> a < dp + 6 * int n then src (sp + 8 * ((a - dp) div 6) + (a - dp) mod 6) else dst a)"
proof (induction n arbitrary: sp dp dst)
  case 0
  show ?case by auto
next
  case (Suc n)
  define d3 where "d3 = memcpy (memcpy (memcpy dst dp src sp 2) (dp + 2) src (sp + 2) 2) (dp + 4) src (sp + 4) 2"
  have d3: "d3 a = (if dp \<le> a \<and> a < dp + 6 then src (sp + (a - dp)) else dst a)"
    unfolding d3_def memcpy_def by auto
  have step: "snd (copy_samples (Suc n) src sp dp dst) a = snd (copy_samples n src (sp + 8) (dp + 6) d3) a"
    by (simp add: Let_def d3_def)
  show ?case
  proof (cases "dp + 6 \<le> a \<and> a < dp + 6 + 6 * int n")
    case True
    then have "snd (copy_samples (Suc n) src sp dp dst) a =
                 src (sp + 8 + 8 * ((a - (dp + 6)) div 6) + (a - (dp + 6)) mod 6)"
      unfolding step Suc.IH by auto
    moreover have "a - (dp + 6) = (a - dp) - 6" by simp
    ultimately have "snd (copy_samples (Suc n) src sp dp dst) a =
                 src (sp + 8 + 8 * ((a - dp) div 6 - 1) + (a - dp) mod 6)"
      by (simp only: div_mod_shift6)
    then show ?thesis using True by (auto simp add: algebra_simps)
  next
    case False
    then have e: "snd (copy_samples (Suc n) src sp dp dst) a = d3 a"
      unfolding step Suc.IH by auto
    show ?thesis
    proof (cases "dp \<le> a \<and> a < dp + 6")
      case True
      then have "(a - dp) div 6 = 0" "(a - dp) mod 6 = a - dp"
        by simp_all
      then show ?thesis using True e d3 by auto
    next
      case False
      with \<open>\<not> (dp + 6 \<le> a \<and> a < dp + 6 + 6 * int n)\<close> show ?thesis
        using e d3 by auto
    qed
  qed
qed

lemma copy_samples_slot:
  assumes "k < n" and "j < 6"
  shows "snd (copy_samples n src sp dp dst) (dp + 6 * int k + int j) = src (sp + 8 * int k + int j)"
proof -
  have "(6 * int k + int j) div 6 = int k" "(6 * int k + int j) mod 6 = int j"
    using assms(2) by simp_all
  moreover have "dp + 6 * int k + int j - dp = 6 * int k + int j"
    by simp
  moreover have "dp + 6 * int k + int j < dp + 6 * int n"
    using assms by simp
  ultimately show ?thesis
    unfolding copy_samples_snd by auto
qed


lemma slots_before_Suc: "slots_before c (Suc d) = slots_before c d + unat (c d)"
  by (simp add: slots_before_def)

lemma copy_ddc_fold:
  fixes s :: state and p0 :: int
  defines "r \<equiv> \<lambda>n. fold copy_ddc [0..<n] (p0, s)"
  shows "fst (r n) = p0 + 8 * int (slots_before (DDCCounts s) n) \<and>
         DMAReadBuffer (snd (r n)) = DMAReadBuffer s \<and> DDCCounts (snd (r n)) = DDCCounts s \<and>
         FrameLength (snd (r n)) = FrameLength s \<and> DMAReadPtr (snd (r n)) = DMAReadPtr s \<and>
         DMAHeadPtr (snd (r n)) = DMAHeadPtr s \<and> IQReadPtr (snd (r n)) = IQReadPtr s \<and>
         (\<forall>d. IQHeadPtr (snd (r n)) d =
                (if d < n then IQHeadPtr s d + uint (6 * DDCCounts s d) else IQHeadPtr s d)) \<and>
         (\<forall>d. DDCSampleBuffer (snd (r n)) d =
                (if d < n
                 then snd (copy_samples (unat (DDCCounts s d)) (DMAReadBuffer s)
                             (p0 + 8 * int (slots_before (DDCCounts s) d)) (IQHeadPtr s d)
                             (DDCSampleBuffer s d))
                 else DDCSampleBuffer s d))"
proof (induction n)
  case 0
  show ?case by (simp add: r_def slots_before_def)
next
  case (Suc n)
  obtain p sn where rn: "r n = (p, sn)"
    by (cases "r n")
  from Suc [unfolded rn] have ih:
    "p = p0 + 8 * int (slots_before (DDCCounts s) n)"
    "DMAReadBuffer sn = DMAReadBuffer s" "DDCCounts sn = DDCCounts s"
    "FrameLength sn = FrameLength s" "DMAReadPtr sn = DMAReadPtr s"
    "DMAHeadPtr sn = DMAHeadPtr s" "IQReadPtr sn = IQReadPtr s"
    "\<And>d. IQHeadPtr sn d = (if d < n then IQHeadPtr s d + uint (6 * DDCCounts s d) else IQHeadPtr s d)"
    "\<And>d. DDCSampleBuffer sn d =
                (if d < n
                 then snd (copy_samples (unat (DDCCounts s d)) (DMAReadBuffer s)
                             (p0 + 8 * int (slots_before (DDCCounts s) d)) (IQHeadPtr s d)
                             (DDCSampleBuffer s d))
                 else DDCSampleBuffer s d)"
    by simp_all
  have step: "r (Suc n) = copy_ddc n (p, sn)"
    by (simp add: r_def rn [unfolded r_def])
  show ?case
  proof (cases "DDCCounts s n = 0")
    case True
    then have "r (Suc n) = (p, sn)"
      by (simp add: step copy_ddc_def ih Let_def)
    then show ?thesis
      using ih True by (auto simp: slots_before_Suc less_Suc_eq)
  next
    case False
    define cs where "cs = copy_samples (unat (DDCCounts s n)) (DMAReadBuffer s) p (IQHeadPtr s n)
                            (DDCSampleBuffer s n)"
    have "r (Suc n) = (fst cs, sn\<lparr>DDCSampleBuffer := (DDCSampleBuffer sn)(n := snd cs),
                                   IQHeadPtr := (IQHeadPtr sn)(n := IQHeadPtr s n + uint (6 * DDCCounts s n))\<rparr>)"
      using False by (simp add: step copy_ddc_def ih cs_def split_beta Let_def)
    moreover have "fst cs = p + 8 * int (unat (DDCCounts s n))"
      by (simp add: cs_def copy_samples_fst)
    ultimately show ?thesis
      using ih by (auto simp: slots_before_Suc less_Suc_eq cs_def)
  qed
qed


lemma unat_u32_less: "unat (x :: u32) < 4294967296"
  using unsigned_less [of x, where 'a = nat] by simp

lemma unat_times_8:
  fixes x :: u32
  assumes "8 * unat x < 4294967296"
  shows "unat (x * 8) = 8 * unat x"
proof -
  have "unat x * unat (8 :: u32) < 2 ^ LENGTH(32)"
    using assms by simp
  then have "unat (x * 8) = unat x * unat (8 :: u32)"
    by (simp only: unat_mult_lem)
  then show ?thesis by simp
qed

lemma unat_succ_times_8:
  fixes x :: u32
  assumes "8 * (unat x + 1) < 4294967296"
  shows "unat ((x + 1) * 8) = 8 * (unat x + 1)"
proof -
  have "unat x + unat (1 :: u32) < 2 ^ LENGTH(32)"
    using assms by simp
  then have a: "unat (x + 1) = unat x + unat (1 :: u32)"
    by (simp only: unat_add_lem)
  then have "8 * unat (x + 1) < 4294967296"
    using assms by simp
  then have "unat ((x + 1) * 8) = 8 * unat (x + 1)"
    by (rule unat_times_8)
  then show ?thesis
    using a by simp
qed

lemma unat_6_times:
  fixes x :: u32
  assumes "6 * unat x < 4294967296"
  shows "uint (6 * x) = 6 * int (unat x)"
proof -
  have "unat (6 :: u32) * unat x < 2 ^ LENGTH(32)"
    using assms by simp
  then have "unat (6 * x) = unat (6 :: u32) * unat x"
    by (simp only: unat_mult_lem)
  then have "unat (6 * x) = 6 * unat x"
    by simp
  then have "int (unat (6 * x)) = 6 * int (unat x)"
    by simp
  then show ?thesis
    by (simp only: uint_nat)
qed

lemma decode_header_frame:
  "DMAReadPtr (decode_header e s) = DMAReadPtr s" "DMAHeadPtr (decode_header e s) = DMAHeadPtr s"
  "DMAReadBuffer (decode_header e s) = DMAReadBuffer s"
  "IQHeadPtr (decode_header e s) = IQHeadPtr s" "IQReadPtr (decode_header e s) = IQReadPtr s"
  "DDCSampleBuffer (decode_header e s) = DDCSampleBuffer s"
  by (simp_all add: decode_header_def Let_def split_beta)

lemma copy_frame_result:
  fixes s :: state
  defines "c \<equiv> DDCCounts s"
  shows "DMAReadPtr (copy_frame e s) = DMAReadPtr s + 8 + uint (FrameLength s * 8)"
    and "DMAHeadPtr (copy_frame e s) = DMAHeadPtr s"
    and "IQReadPtr (copy_frame e s) = IQReadPtr s"
    and "d < VNUMDDC e \<Longrightarrow> IQHeadPtr (copy_frame e s) d = IQHeadPtr s d + uint (6 * c d)"
    and "d < VNUMDDC e \<Longrightarrow> DDCSampleBuffer (copy_frame e s) d =
           snd (copy_samples (unat (c d)) (DMAReadBuffer s)
                  (DMAReadPtr s + 8 + 8 * int (slots_before c d)) (IQHeadPtr s d)
                  (DDCSampleBuffer s d))"
  using copy_ddc_fold [where ?p0.0 = "DMAReadPtr s + 8" and s = "s\<lparr>DMAReadPtr := DMAReadPtr s + 8\<rparr>"
      and n = "VNUMDDC e"]
  by (simp_all add: copy_frame_alt Let_def c_def)

text \<open>
  C3. Let the parser stand at a header word (byte 7 at the read pointer is 0x80) with at least
  16 bytes to decode, let \<open>s1\<close> hold the frame length and the counts for its rate word, and
  let the whole frame, \<open>(FrameLength + 1) * 8\<close> bytes, be within the bytes left to decode. Then
  the parser copies the frame and goes on with the rest. After the copy the DMA read pointer
  is \<open>(FrameLength + 1) * 8\<close> bytes further. For each DDC \<open>d\<close> the head of its ring is
  6 times its count further, the read pointer is where it was, the ring is unchanged outside
  the appended bytes, and appended byte \<open>j\<close> of sample \<open>k\<close> is byte \<open>j\<close> of the 8-byte slot
  number \<open>slots_before d + k\<close> after the header word: the slots of DDC 0 come first, then those
  of DDC 1, and the last two bytes of each slot are skipped. The counts are taken small
  enough for 6 times a count to fit in 32 bits.
\<close>

theorem frame_copied:
  assumes "16 \<le> D" and "DMAReadBuffer s (DMAReadPtr s + 7) = 0x80"
    and "s1 = decode_header e s"
    and "8 * (unat (FrameLength s1) + 1) \<le> unat D"
    and "\<forall>d<VNUMDDC e. 6 * unat (DDCCounts s1 d) < 4294967296"
  shows "parse_frames e (Suc f) D s =
           parse_frames e f (D - (FrameLength s1 + 1) * 8) (copy_frame e s1) \<and>
         unat (D - (FrameLength s1 + 1) * 8) = unat D - 8 * (unat (FrameLength s1) + 1) \<and>
         DMAReadPtr (copy_frame e s1) = DMAReadPtr s + 8 * (int (unat (FrameLength s1)) + 1) \<and>
         DMAHeadPtr (copy_frame e s1) = DMAHeadPtr s \<and>
         (\<forall>d<VNUMDDC e.
            IQHeadPtr (copy_frame e s1) d = IQHeadPtr s d + 6 * int (unat (DDCCounts s1 d)) \<and>
            IQReadPtr (copy_frame e s1) d = IQReadPtr s d \<and>
            (\<forall>k<unat (DDCCounts s1 d). \<forall>j<6.
               DDCSampleBuffer (copy_frame e s1) d (IQHeadPtr s d + 6 * int k + int j) =
               DMAReadBuffer s (DMAReadPtr s + 8 + 8 * int (slots_before (DDCCounts s1) d + k) + int j)) \<and>
            (\<forall>a. a < IQHeadPtr s d \<or> IQHeadPtr s d + 6 * int (unat (DDCCounts s1 d)) \<le> a \<longrightarrow>
               DDCSampleBuffer (copy_frame e s1) d a = DDCSampleBuffer s d a))"
proof -
  have lim: "unat D < 4294967296"
    by (rule unat_u32_less)
  with assms(4) have fit: "8 * (unat (FrameLength s1) + 1) < 4294967296"
    by simp
  then have fit': "8 * unat (FrameLength s1) < 4294967296"
    by simp
  have u1: "unat ((FrameLength s1 + 1) * 8) = 8 * (unat (FrameLength s1) + 1)"
    by (rule unat_succ_times_8 [OF fit])
  have "int (unat (FrameLength s1 * 8)) = 8 * int (unat (FrameLength s1))"
    by (simp add: unat_times_8 [OF fit'])
  then have u2: "uint (FrameLength s1 * 8) = 8 * int (unat (FrameLength s1))"
    by (simp only: uint_nat)
  have guard: "(FrameLength s1 + 1) * 8 \<le> D"
    unfolding word_le_nat_alt u1 by (rule assms(4))
  have step: "parse_frames e (Suc f) D s =
           parse_frames e f (D - (FrameLength s1 + 1) * 8) (copy_frame e s1)"
    using assms(1,2) guard by (simp add: Let_def assms(3) [symmetric])
  have rest: "unat (D - (FrameLength s1 + 1) * 8) = unat D - 8 * (unat (FrameLength s1) + 1)"
    unfolding unat_sub [OF guard] u1 ..
  have fr: "DMAReadPtr s1 = DMAReadPtr s" "DMAReadBuffer s1 = DMAReadBuffer s"
    "IQHeadPtr s1 = IQHeadPtr s" "IQReadPtr s1 = IQReadPtr s" "DDCSampleBuffer s1 = DDCSampleBuffer s"
    "DMAHeadPtr s1 = DMAHeadPtr s"
    unfolding assms(3) by (rule decode_header_frame)+
  have "DMAReadPtr (copy_frame e s1) = DMAReadPtr s + 8 + 8 * int (unat (FrameLength s1))"
    unfolding copy_frame_result(1) u2 fr ..
  then have rd: "DMAReadPtr (copy_frame e s1) = DMAReadPtr s + 8 * (int (unat (FrameLength s1)) + 1)"
    by (simp only: distrib_left mult_1_right add.assoc add.commute)
  have hd: "DMAHeadPtr (copy_frame e s1) = DMAHeadPtr s"
    unfolding copy_frame_result(2) fr ..
  have ring: "IQHeadPtr (copy_frame e s1) d = IQHeadPtr s d + 6 * int (unat (DDCCounts s1 d)) \<and>
            IQReadPtr (copy_frame e s1) d = IQReadPtr s d \<and>
            (\<forall>k<unat (DDCCounts s1 d). \<forall>j<6.
               DDCSampleBuffer (copy_frame e s1) d (IQHeadPtr s d + 6 * int k + int j) =
               DMAReadBuffer s (DMAReadPtr s + 8 + 8 * int (slots_before (DDCCounts s1) d + k) + int j)) \<and>
            (\<forall>a. a < IQHeadPtr s d \<or> IQHeadPtr s d + 6 * int (unat (DDCCounts s1 d)) \<le> a \<longrightarrow>
               DDCSampleBuffer (copy_frame e s1) d a = DDCSampleBuffer s d a)"
    if d: "d < VNUMDDC e" for d
  proof -
    have six: "uint (6 * DDCCounts s1 d) = 6 * int (unat (DDCCounts s1 d))"
      using assms(5) d by (intro unat_6_times) simp
    have buf: "DDCSampleBuffer (copy_frame e s1) d =
           snd (copy_samples (unat (DDCCounts s1 d)) (DMAReadBuffer s)
                  (DMAReadPtr s + 8 + 8 * int (slots_before (DDCCounts s1) d)) (IQHeadPtr s d)
                  (DDCSampleBuffer s d))"
      using copy_frame_result(5) [OF d, of s1] unfolding fr .
    have a: "IQHeadPtr (copy_frame e s1) d = IQHeadPtr s d + 6 * int (unat (DDCCounts s1 d))"
      using copy_frame_result(4) [OF d, of s1] unfolding fr six .
    have b: "IQReadPtr (copy_frame e s1) d = IQReadPtr s d"
      unfolding copy_frame_result(3) fr ..
    have c: "DDCSampleBuffer (copy_frame e s1) d (IQHeadPtr s d + 6 * int k + int j) =
               DMAReadBuffer s (DMAReadPtr s + 8 + 8 * int (slots_before (DDCCounts s1) d + k) + int j)"
      if "k < unat (DDCCounts s1 d)" "j < 6" for k j
      unfolding buf copy_samples_slot [OF that] by (simp add: algebra_simps)
    have e: "DDCSampleBuffer (copy_frame e s1) d a = DDCSampleBuffer s d a"
      if "a < IQHeadPtr s d \<or> IQHeadPtr s d + 6 * int (unat (DDCCounts s1 d)) \<le> a" for a
      unfolding buf copy_samples_snd using that by auto
    show ?thesis
      using a b c e by blast
  qed
  show ?thesis
    using step rest rd hd ring by blast
qed


theorem frame_copied_witness:
  "(16 :: u32) \<le> 24 \<and> DMAReadBuffer state_frame (DMAReadPtr state_frame + 7) = 0x80 \<and>
   8 * (unat (FrameLength (decode_header env_frame state_frame)) + 1) \<le> unat (24 :: u32) \<and>
   VNUMDDC env_frame = 2 \<and>
   DDCCounts (decode_header env_frame state_frame) 0 = 1 \<and>
   DDCCounts (decode_header env_frame state_frame) 1 = 1 \<and>
   DMAReadPtr (copy_frame env_frame (decode_header env_frame state_frame)) = 24 \<and>
   IQHeadPtr (copy_frame env_frame (decode_header env_frame state_frame)) 0 = 6 \<and>
   IQHeadPtr (copy_frame env_frame (decode_header env_frame state_frame)) 1 = 6 \<and>
   DDCSampleBuffer (copy_frame env_frame (decode_header env_frame state_frame)) 1 5 = 0x80 \<and>
   DDCSampleBuffer (copy_frame env_frame (decode_header env_frame state_frame)) 1 6 = 0"
proof -
  define s1 where "s1 = decode_header env_frame state_frame"
  have rw: "load_u32 (DMAReadBuffer state_frame) (DMAReadPtr state_frame) = 0x80808080"
    by (simp add: load_u32_def state_frame_def)
  have s1: "FrameLength s1 = 2" "DDCCounts s1 = (\<lambda>d. 1)"
    by (simp_all add: s1_def decode_header_def Let_def rw)
       (simp_all add: state_frame_def env_frame_def)
  have st: "DMAReadBuffer state_frame = (\<lambda>a. 0x80)" "DMAReadPtr state_frame = 0"
    "IQHeadPtr state_frame = (\<lambda>d. 0)" "DDCSampleBuffer state_frame = (\<lambda>d a. 0)"
    by (simp_all add: state_frame_def state0_def)
  have n: "VNUMDDC env_frame = 2"
    by (simp add: env_frame_def env0_def)
  have h1: "(16 :: u32) \<le> 24" by simp
  have h2: "DMAReadBuffer state_frame (DMAReadPtr state_frame + 7) = 0x80"
    by (simp add: st)
  have h4: "8 * (unat (FrameLength s1) + 1) \<le> unat (24 :: u32)"
    by (simp add: s1)
  have h5: "\<forall>d<VNUMDDC env_frame. 6 * unat (DDCCounts s1 d) < 4294967296"
    by (simp add: s1)
  from frame_copied [OF h1 h2 s1_def h4 h5, of 0]
  have c: "DMAReadPtr (copy_frame env_frame s1) = DMAReadPtr state_frame + 8 * (int (unat (FrameLength s1)) + 1)"
    and r: "\<forall>d<VNUMDDC env_frame.
            IQHeadPtr (copy_frame env_frame s1) d = IQHeadPtr state_frame d + 6 * int (unat (DDCCounts s1 d)) \<and>
            IQReadPtr (copy_frame env_frame s1) d = IQReadPtr state_frame d \<and>
            (\<forall>k<unat (DDCCounts s1 d). \<forall>j<6.
               DDCSampleBuffer (copy_frame env_frame s1) d (IQHeadPtr state_frame d + 6 * int k + int j) =
               DMAReadBuffer state_frame (DMAReadPtr state_frame + 8 + 8 * int (slots_before (DDCCounts s1) d + k) + int j)) \<and>
            (\<forall>a. a < IQHeadPtr state_frame d \<or> IQHeadPtr state_frame d + 6 * int (unat (DDCCounts s1 d)) \<le> a \<longrightarrow>
               DDCSampleBuffer (copy_frame env_frame s1) d a = DDCSampleBuffer state_frame d a)"
    by blast+
  have r0: "IQHeadPtr (copy_frame env_frame s1) 0 = 6"
    using r [rule_format, of 0] by (simp add: n s1 st)
  have r1: "IQHeadPtr (copy_frame env_frame s1) 1 = 6"
    using r [rule_format, of 1] by (simp add: n s1 st)
  have k0: "(0 :: nat) < unat (DDCCounts s1 1)" and j5: "(5 :: nat) < 6"
    by (simp_all add: s1)
  have "(\<forall>k<unat (DDCCounts s1 1). \<forall>j<6.
               DDCSampleBuffer (copy_frame env_frame s1) 1 (IQHeadPtr state_frame 1 + 6 * int k + int j) =
               DMAReadBuffer state_frame (DMAReadPtr state_frame + 8 + 8 * int (slots_before (DDCCounts s1) 1 + k) + int j))"
    using r [rule_format, of 1] by (simp add: n)
  then have "DDCSampleBuffer (copy_frame env_frame s1) 1 (IQHeadPtr state_frame 1 + 6 * int 0 + int 5) =
               DMAReadBuffer state_frame (DMAReadPtr state_frame + 8 + 8 * int (slots_before (DDCCounts s1) 1 + 0) + int 5)"
    using k0 j5 by blast
  then have b5: "DDCSampleBuffer (copy_frame env_frame s1) 1 5 = 0x80"
    by (simp add: st)
  have "(\<forall>a. a < IQHeadPtr state_frame 1 \<or> IQHeadPtr state_frame 1 + 6 * int (unat (DDCCounts s1 1)) \<le> a \<longrightarrow>
               DDCSampleBuffer (copy_frame env_frame s1) 1 a = DDCSampleBuffer state_frame 1 a)"
    using r [rule_format, of 1] by (simp add: n)
  moreover have "(6 :: int) < IQHeadPtr state_frame 1 \<or> IQHeadPtr state_frame 1 + 6 * int (unat (DDCCounts s1 1)) \<le> 6"
    by (simp add: s1 st)
  ultimately have "DDCSampleBuffer (copy_frame env_frame s1) 1 6 = DDCSampleBuffer state_frame 1 6"
    by blast
  then have b6: "DDCSampleBuffer (copy_frame env_frame s1) 1 6 = 0"
    by (simp add: st)
  have "DMAReadPtr (copy_frame env_frame s1) = 24"
    using c by (simp add: s1 st)
  then show ?thesis
    using h1 h2 h4 n r0 r1 b5 b6 s1 unfolding s1_def by simp
qed

lemma copy_fold_keeps:
  "InitError (snd (fold copy_ddc ds (p, s))) = InitError s \<and>
   n_sdr (snd (fold copy_ddc ds (p, s))) = n_sdr s \<and>
   n_send (snd (fold copy_ddc ds (p, s))) = n_send s \<and>
   n_fifo (snd (fold copy_ddc ds (p, s))) = n_fifo s \<and>
   n_dma (snd (fold copy_ddc ds (p, s))) = n_dma s \<and>
   n_idle (snd (fold copy_ddc ds (p, s))) = n_idle s \<and>
   trace (snd (fold copy_ddc ds (p, s))) = trace s \<and>
   HeaderFound (snd (fold copy_ddc ds (p, s))) = HeaderFound s \<and>
   DMATransferSize (snd (fold copy_ddc ds (p, s))) = DMATransferSize s \<and>
   Depth (snd (fold copy_ddc ds (p, s))) = Depth s \<and>
   PrevRateWord (snd (fold copy_ddc ds (p, s))) = PrevRateWord s \<and>
   DMABasePtr (snd (fold copy_ddc ds (p, s))) = DMABasePtr s \<and>
   IQBasePtr (snd (fold copy_ddc ds (p, s))) = IQBasePtr s \<and>
   Active (snd (fold copy_ddc ds (p, s))) = Active s"
proof (induction ds arbitrary: p s)
  case Nil
  show ?case by simp
next
  case (Cons d ds)
  obtain p1 s1 where c: "copy_ddc d (p, s) = (p1, s1)"
    by (cases "copy_ddc d (p, s)")
  then have "InitError s1 = InitError s \<and> n_sdr s1 = n_sdr s \<and> n_send s1 = n_send s \<and>
    n_fifo s1 = n_fifo s \<and> n_dma s1 = n_dma s \<and> n_idle s1 = n_idle s \<and> trace s1 = trace s \<and>
    HeaderFound s1 = HeaderFound s \<and> DMATransferSize s1 = DMATransferSize s \<and> Depth s1 = Depth s \<and>
    PrevRateWord s1 = PrevRateWord s \<and> DMABasePtr s1 = DMABasePtr s \<and> IQBasePtr s1 = IQBasePtr s \<and>
    Active s1 = Active s"
    by (auto simp: copy_ddc_def Let_def split_beta split: if_splits)
  then show ?case
    using Cons.IH [of p1 s1] by (simp add: c)
qed

lemma copy_frame_keeps:
  "InitError (copy_frame e s) = InitError s" "n_sdr (copy_frame e s) = n_sdr s"
  "n_send (copy_frame e s) = n_send s" "n_fifo (copy_frame e s) = n_fifo s"
  "n_dma (copy_frame e s) = n_dma s" "n_idle (copy_frame e s) = n_idle s"
  "trace (copy_frame e s) = trace s" "HeaderFound (copy_frame e s) = HeaderFound s"
  "DMATransferSize (copy_frame e s) = DMATransferSize s" "Depth (copy_frame e s) = Depth s"
  "PrevRateWord (copy_frame e s) = PrevRateWord s" "DMABasePtr (copy_frame e s) = DMABasePtr s"
  "IQBasePtr (copy_frame e s) = IQBasePtr s" "Active (copy_frame e s) = Active s"
  "FrameLength (copy_frame e s) = FrameLength s" "DDCCounts (copy_frame e s) = DDCCounts s"
  "DMAReadBuffer (copy_frame e s) = DMAReadBuffer s"
  using copy_fold_keeps [of "[0..<VNUMDDC e]" "DMAReadPtr s + 8" "s\<lparr>DMAReadPtr := DMAReadPtr s + 8\<rparr>"]
    copy_ddc_fold [where ?p0.0 = "DMAReadPtr s + 8" and s = "s\<lparr>DMAReadPtr := DMAReadPtr s + 8\<rparr>"
      and n = "VNUMDDC e"]
  by (simp_all add: copy_frame_alt Let_def)

subsection \<open>A run whose sends fail\<close>

lemma env_senderr_simps:
  "VNUMDDC env_senderr = 2" "alloc_fails env_senderr = False" "open_result env_senderr = 3"
  "SDRActive env_senderr n = True" "change_port env_senderr n d = False"
  "rd_value (fifo_monitor env_senderr n) = 512" "rd_overthreshold (fifo_monitor env_senderr n) = False"
  "dma_data env_senderr n a = 0x80" "sendmsg_result env_senderr n = - 1"
  "AnalyseDDCHeader env_senderr r c = (239, \<lambda>d. if d = 0 then 239 else 0)"
  by (simp_all add: env_senderr_def env1_def env0_def)

text \<open>One frame of 239 slots for DDC 0.\<close>

lemma frame_senderr:
  assumes "FrameLength s = 239" "DDCCounts s = (\<lambda>d. if d = 0 then 239 else 0)"
  shows "DMAReadPtr (copy_frame env_senderr s) = DMAReadPtr s + 1920"
    and "DMAHeadPtr (copy_frame env_senderr s) = DMAHeadPtr s"
    and "IQReadPtr (copy_frame env_senderr s) = IQReadPtr s"
    and "IQHeadPtr (copy_frame env_senderr s) 0 = IQHeadPtr s 0 + 1434"
    and "IQHeadPtr (copy_frame env_senderr s) (Suc 0) = IQHeadPtr s (Suc 0)"
proof -
  show "DMAReadPtr (copy_frame env_senderr s) = DMAReadPtr s + 1920"
    by (simp add: copy_frame_result assms)
  show "DMAHeadPtr (copy_frame env_senderr s) = DMAHeadPtr s" "IQReadPtr (copy_frame env_senderr s) = IQReadPtr s"
    by (simp_all add: copy_frame_result)
  have "0 < VNUMDDC env_senderr" "Suc 0 < VNUMDDC env_senderr"
    by (simp_all add: env_senderr_simps)
  from copy_frame_result(4) [OF this(1), of s] copy_frame_result(4) [OF this(2), of s]
  show "IQHeadPtr (copy_frame env_senderr s) 0 = IQHeadPtr s 0 + 1434"
    "IQHeadPtr (copy_frame env_senderr s) (Suc 0) = IQHeadPtr s (Suc 0)"
    by (simp_all add: assms)
qed


lemma parse_decoded:
  assumes "decode_header e (decode_header e s) = decode_header e s"
    and "16 \<le> D" "DMAReadBuffer s (DMAReadPtr s + 7) = 0x80"
  shows "parse_frames e (Suc f) D s = parse_frames e (Suc f) D (decode_header e s)"
  using assms(2,3) by (simp add: Let_def decode_header_frame assms(1))

lemma parse_senderr:
  assumes "FrameLength s = 239" "PrevRateWord s = 0x80808080"
    and "\<And>a. DMAReadPtr s \<le> a \<Longrightarrow> a < DMAReadPtr s + 8 \<Longrightarrow> DMAReadBuffer s a = 0x80"
  shows "1920 \<le> D \<Longrightarrow> parse_frames env_senderr (Suc f) D s =
           parse_frames env_senderr f (D - 1920) (copy_frame env_senderr s)"
    and "16 \<le> D \<Longrightarrow> D < 1920 \<Longrightarrow> parse_frames env_senderr (Suc f) D s = Continue s"
proof -
  have rw: "load_u32 (DMAReadBuffer s) (DMAReadPtr s) = 0x80808080"
    by (simp add: load_u32_def assms(3))
  have d: "decode_header env_senderr s = s"
    by (simp add: decode_header_def Let_def rw assms(2))
  have b: "DMAReadBuffer s (DMAReadPtr s + 7) = 0x80"
    by (rule assms(3)) simp_all
  have le: "(16 :: u32) \<le> D" if "1920 \<le> D"
    using that by (simp add: word_le_nat_alt)
  show "parse_frames env_senderr (Suc f) D s =
           parse_frames env_senderr f (D - 1920) (copy_frame env_senderr s)" if "1920 \<le> D"
    using that le [OF that] by (simp add: Let_def d b assms(1))
  show "parse_frames env_senderr (Suc f) D s = Continue s" if "16 \<le> D" "D < 1920"
    using that by (simp add: Let_def d b assms(1) not_le [symmetric])
qed

lemma pass_first:
  fixes s :: state
  assumes s: "InitError s = False" "HeaderFound s = False"
    "DMAReadPtr s = 4096" "DMAHeadPtr s = 4096" "DMABasePtr s = 4096"
    "DMATransferSize s = 4096" "PrevRateWord s = 0xFFFFFFFF"
    "IQReadPtr s 0 = 4096" "IQHeadPtr s 0 = 4096" "IQBasePtr s 0 = 4096"
    "IQReadPtr s (Suc 0) = 4096" "IQHeadPtr s (Suc 0) = 4096" "IQBasePtr s (Suc 0) = 4096"
  shows "\<exists>t. stream_iter env_senderr (Suc (Suc (Suc f))) s = Continue t \<and>
             InitError t = False \<and> HeaderFound t \<and>
             DMAReadPtr t = 3856 \<and> DMAHeadPtr t = 4096 \<and> DMABasePtr t = 4096 \<and>
             DMATransferSize t = 4096 \<and> PrevRateWord t = 0x80808080 \<and> FrameLength t = 239 \<and>
             DDCCounts t = (\<lambda>d. if d = 0 then 239 else 0) \<and>
             (\<forall>a. 3856 \<le> a \<and> a < 4096 \<longrightarrow> DMAReadBuffer t a = 0x80) \<and>
             IQReadPtr t 0 = 4096 \<and> IQHeadPtr t 0 = 6964 \<and> IQBasePtr t 0 = 4096 \<and>
             IQReadPtr t (Suc 0) = 4096 \<and> IQHeadPtr t (Suc 0) = 4096 \<and> IQBasePtr t (Suc 0) = 4096 \<and>
             n_sdr t = n_sdr s \<and> n_send t = n_send s \<and> Active t = Active s \<and>
             trace t = trace s @ [EvReadFIFOMonitorChannel, EvDMAReadFromFPGA 4096 4096]"
proof -
  let ?e = env_senderr
  let ?c = "\<lambda>d::nat. if d = 0 then 239 else (0::u32)"
  have "\<not> IQHeadPtr s d - IQReadPtr s d > 1428 \<and> \<not> IQReadPtr s d > IQBasePtr s d" if "d < 2" for d
  proof -
    from that have "d = 0 \<or> d = Suc 0" by auto
    then show ?thesis using s by auto
  qed
  then have d: "drain_all ?e s = s"
    by (intro drain_all_idle) (simp add: env_senderr_simps)
  define t3 where "t3 = poll_fifo ?e s"
  have t3: "InitError t3 = False" "HeaderFound t3 = False"
    "DMAReadPtr t3 = 4096" "DMAHeadPtr t3 = 4096" "DMABasePtr t3 = 4096"
    "DMATransferSize t3 = 4096" "PrevRateWord t3 = 0xFFFFFFFF" "Depth t3 = 512"
    "IQReadPtr t3 = IQReadPtr s" "IQHeadPtr t3 = IQHeadPtr s" "IQBasePtr t3 = IQBasePtr s"
    "n_sdr t3 = n_sdr s" "n_send t3 = n_send s" "Active t3 = Active s"
    "trace t3 = trace s @ [EvReadFIFOMonitorChannel]"
    by (simp_all add: t3_def poll_fifo_def ReadFIFOMonitorChannel_def Let_def s env_senderr_simps)
  have w: "wait_fifo ?e (Suc (Suc (Suc f))) t3 = Continue t3"
    by (simp add: t3)
  define t4 where "t4 = dma_read ?e (select_transfer_size t3)"
  have t4: "InitError t4 = False" "HeaderFound t4 = False"
    "DMAReadPtr t4 = 4096" "DMAHeadPtr t4 = 8192" "DMABasePtr t4 = 4096"
    "DMATransferSize t4 = 4096" "PrevRateWord t4 = 0xFFFFFFFF"
    "IQReadPtr t4 = IQReadPtr s" "IQHeadPtr t4 = IQHeadPtr s" "IQBasePtr t4 = IQBasePtr s"
    "n_sdr t4 = n_sdr s" "n_send t4 = n_send s" "Active t4 = Active s"
    "trace t4 = trace s @ [EvReadFIFOMonitorChannel, EvDMAReadFromFPGA 4096 4096]"
    "\<And>a. 4096 \<le> a \<Longrightarrow> a < 8192 \<Longrightarrow> DMAReadBuffer t4 a = 0x80"
    by (simp_all add: t4_def dma_read_def select_transfer_size_def t3 env_senderr_simps memcpy_def)
  define t5 where "t5 = t4\<lparr>HeaderFound := True, DMAReadPtr := 4112\<rparr>"
  have "sync_scan (Suc (Suc (Suc f))) 16 t4 = Continue t5"
    by (simp add: t4 t5_def)
  then have a: "acquire_sync (Suc (Suc (Suc f))) t4 = Continue t5"
    by (simp add: acquire_sync_def t4 t5_def)
  have t5: "InitError t5 = False" "HeaderFound t5"
    "DMAReadPtr t5 = 4112" "DMAHeadPtr t5 = 8192" "DMABasePtr t5 = 4096"
    "DMATransferSize t5 = 4096" "PrevRateWord t5 = 0xFFFFFFFF"
    "IQReadPtr t5 = IQReadPtr s" "IQHeadPtr t5 = IQHeadPtr s" "IQBasePtr t5 = IQBasePtr s"
    "n_sdr t5 = n_sdr s" "n_send t5 = n_send s" "Active t5 = Active s"
    "trace t5 = trace s @ [EvReadFIFOMonitorChannel, EvDMAReadFromFPGA 4096 4096]"
    "\<And>a. 4096 \<le> a \<Longrightarrow> a < 8192 \<Longrightarrow> DMAReadBuffer t5 a = 0x80"
    by (simp_all add: t5_def t4)
  have rw: "load_u32 (DMAReadBuffer t5) 4112 = 0x80808080"
    by (simp add: load_u32_def t5)
  define t6 where "t6 = decode_header ?e t5"
  have t6: "InitError t6 = False" "HeaderFound t6"
    "DMAReadPtr t6 = 4112" "DMAHeadPtr t6 = 8192" "DMABasePtr t6 = 4096"
    "DMATransferSize t6 = 4096" "PrevRateWord t6 = 0x80808080" "FrameLength t6 = 239"
    "DDCCounts t6 = ?c"
    "IQReadPtr t6 = IQReadPtr s" "IQHeadPtr t6 = IQHeadPtr s" "IQBasePtr t6 = IQBasePtr s"
    "n_sdr t6 = n_sdr s" "n_send t6 = n_send s" "Active t6 = Active s"
    "trace t6 = trace s @ [EvReadFIFOMonitorChannel, EvDMAReadFromFPGA 4096 4096]"
    "\<And>a. 4096 \<le> a \<Longrightarrow> a < 8192 \<Longrightarrow> DMAReadBuffer t6 a = 0x80"
    by (simp_all add: t6_def decode_header_def Let_def t5 rw env_senderr_simps)
  have "load_u32 (DMAReadBuffer t6) (DMAReadPtr t6) = 0x80808080"
    by (simp add: load_u32_def t6)
  then have dd: "decode_header ?e t6 = t6"
    by (simp add: decode_header_def Let_def t6)
  define t7 where "t7 = copy_frame ?e t6"
  have t7: "InitError t7 = False" "HeaderFound t7"
    "DMAReadPtr t7 = 6032" "DMAHeadPtr t7 = 8192" "DMABasePtr t7 = 4096"
    "DMATransferSize t7 = 4096" "PrevRateWord t7 = 0x80808080" "FrameLength t7 = 239"
    "DDCCounts t7 = ?c"
    "IQReadPtr t7 = IQReadPtr s" "IQHeadPtr t7 0 = 5530" "IQHeadPtr t7 (Suc 0) = 4096"
    "IQBasePtr t7 = IQBasePtr s"
    "n_sdr t7 = n_sdr s" "n_send t7 = n_send s" "Active t7 = Active s"
    "trace t7 = trace s @ [EvReadFIFOMonitorChannel, EvDMAReadFromFPGA 4096 4096]"
    "\<And>a. 4096 \<le> a \<Longrightarrow> a < 8192 \<Longrightarrow> DMAReadBuffer t7 a = 0x80"
    unfolding t7_def
    by (simp_all add: copy_frame_keeps frame_senderr [OF t6(8,9)] t6 s)
  define t8 where "t8 = copy_frame ?e t7"
  have t8: "InitError t8 = False" "HeaderFound t8"
    "DMAReadPtr t8 = 7952" "DMAHeadPtr t8 = 8192" "DMABasePtr t8 = 4096"
    "DMATransferSize t8 = 4096" "PrevRateWord t8 = 0x80808080" "FrameLength t8 = 239"
    "DDCCounts t8 = ?c"
    "IQReadPtr t8 = IQReadPtr s" "IQHeadPtr t8 0 = 6964" "IQHeadPtr t8 (Suc 0) = 4096"
    "IQBasePtr t8 = IQBasePtr s"
    "n_sdr t8 = n_sdr s" "n_send t8 = n_send s" "Active t8 = Active s"
    "trace t8 = trace s @ [EvReadFIFOMonitorChannel, EvDMAReadFromFPGA 4096 4096]"
    "\<And>a. 4096 \<le> a \<Longrightarrow> a < 8192 \<Longrightarrow> DMAReadBuffer t8 a = 0x80"
    unfolding t8_def
    by (simp_all add: copy_frame_keeps frame_senderr [OF t7(8,9)] t7)
  have "parse_frames ?e (Suc (Suc (Suc f))) 4080 t5 = parse_frames ?e (Suc (Suc (Suc f))) 4080 t6"
    unfolding t6_def by (rule parse_decoded) (simp_all add: dd [unfolded t6_def] t5)
  also have "\<dots> = parse_frames ?e (Suc (Suc f)) (4080 - 1920) t7"
    unfolding t7_def by (rule parse_senderr(1)) (simp_all add: t6)
  also have "\<dots> = parse_frames ?e (Suc f) (4080 - 1920 - 1920) t8"
    unfolding t8_def by (rule parse_senderr(1)) (simp_all add: t7)
  also have "\<dots> = Continue t8"
    by (rule parse_senderr(2)) (simp_all add: t8)
  finally have p: "parse_frames ?e (Suc (Suc (Suc f))) (word_of_int (DMAHeadPtr t5 - DMAReadPtr t5)) t5
                     = Continue t8"
    by (simp add: t5)
  have it: "stream_iter ?e (Suc (Suc (Suc f))) s = Continue (compact_dma t8)"
    unfolding stream_iter_def d
    using w a p by (simp add: t3_def [symmetric] t4_def [symmetric])
  define t9 where "t9 = compact_dma t8"
  have t9: "InitError t9 = False" "HeaderFound t9"
    "DMAReadPtr t9 = 3856" "DMAHeadPtr t9 = 4096" "DMABasePtr t9 = 4096"
    "DMATransferSize t9 = 4096" "PrevRateWord t9 = 0x80808080" "FrameLength t9 = 239"
    "DDCCounts t9 = ?c"
    "IQReadPtr t9 = IQReadPtr s" "IQHeadPtr t9 0 = 6964" "IQHeadPtr t9 (Suc 0) = 4096"
    "IQBasePtr t9 = IQBasePtr s"
    "n_sdr t9 = n_sdr s" "n_send t9 = n_send s" "Active t9 = Active s"
    "trace t9 = trace s @ [EvReadFIFOMonitorChannel, EvDMAReadFromFPGA 4096 4096]"
    "\<And>a. 3856 \<le> a \<Longrightarrow> a < 4096 \<Longrightarrow> DMAReadBuffer t9 a = 0x80"
    by (simp_all add: t9_def compact_dma_def Let_def t8 memcpy_def)
  show ?thesis
    unfolding it t9_def [symmetric] using t9 s by simp
qed


lemma emit_packet_keeps:
  "HeaderFound (emit_packet e d s) = HeaderFound s" "DMAReadPtr (emit_packet e d s) = DMAReadPtr s"
  "DMAHeadPtr (emit_packet e d s) = DMAHeadPtr s" "DMABasePtr (emit_packet e d s) = DMABasePtr s"
  "DMATransferSize (emit_packet e d s) = DMATransferSize s"
  "PrevRateWord (emit_packet e d s) = PrevRateWord s" "FrameLength (emit_packet e d s) = FrameLength s"
  "DDCCounts (emit_packet e d s) = DDCCounts s" "DMAReadBuffer (emit_packet e d s) = DMAReadBuffer s"
  "n_sdr (emit_packet e d s) = n_sdr s" "Active (emit_packet e d s) = Active s"
  "\<exists>p. trace (emit_packet e d s) = trace s @ [EvSendmsg d (datagram s d) p]"
  by (simp_all add: emit_packet_def Let_def)

text \<open>The second pass, up to the DMA read: two packets go out, then a burst comes in.\<close>

lemma second_fill:
  fixes s t4 :: state
  defines "t4 \<equiv> dma_read env_senderr (select_transfer_size (poll_fifo env_senderr (drain_all env_senderr s)))"
  assumes s: "InitError s = False" "HeaderFound s"
    "DMAReadPtr s = 3856" "DMAHeadPtr s = 4096" "DMABasePtr s = 4096"
    "DMATransferSize s = 4096" "PrevRateWord s = 0x80808080" "FrameLength s = 239"
    "DDCCounts s = (\<lambda>d. if d = 0 then 239 else 0)"
    "\<And>a. 3856 \<le> a \<Longrightarrow> a < 4096 \<Longrightarrow> DMAReadBuffer s a = 0x80"
    "IQReadPtr s 0 = 4096" "IQHeadPtr s 0 = 6964" "IQBasePtr s 0 = 4096"
    "IQReadPtr s (Suc 0) = 4096" "IQHeadPtr s (Suc 0) = 4096" "IQBasePtr s (Suc 0) = 4096"
  shows "InitError t4" "HeaderFound t4"
    "DMAReadPtr t4 = 3856" "DMAHeadPtr t4 = 8192" "DMABasePtr t4 = 4096"
    "DMATransferSize t4 = 4096" "PrevRateWord t4 = 0x80808080" "FrameLength t4 = 239"
    "DDCCounts t4 = (\<lambda>d. if d = 0 then 239 else 0)"
    "n_sdr t4 = n_sdr s" "n_send t4 = Suc (Suc (n_send s))" "Active t4 = Active s"
    "\<exists>h1 p1 h2 p2. trace t4 = trace s @ [EvSendmsg 0 h1 p1, EvSendmsg 0 h2 p2,
                                           EvReadFIFOMonitorChannel, EvDMAReadFromFPGA 4096 4096]"
    "\<And>a. 3856 \<le> a \<Longrightarrow> a < 8192 \<Longrightarrow> DMAReadBuffer t4 a = 0x80"
    "IQReadPtr t4 0 = 4084" "IQHeadPtr t4 0 = 4096" "IQBasePtr t4 0 = 4096"
    "IQReadPtr t4 (Suc 0) = 4096" "IQHeadPtr t4 (Suc 0) = 4096" "IQBasePtr t4 (Suc 0) = 4096"
    "wait_fifo env_senderr (Suc f) (poll_fifo env_senderr (drain_all env_senderr s)) =
       Continue (poll_fifo env_senderr (drain_all env_senderr s))"
    "IQHeadPtr (emit_packet env_senderr 0 s) 0 - IQReadPtr (emit_packet env_senderr 0 s) 0 = 1440"
    "drain_ddc env_senderr 0 s = emit_packet env_senderr 0 (emit_packet env_senderr 0 s)"
    "IQReadPtr (drain_ddc env_senderr 0 s) 0 = 6952" "IQHeadPtr (drain_ddc env_senderr 0 s) 0 = 6964"
    "IQBasePtr (drain_ddc env_senderr 0 s) 0 = 4096"
proof -
  let ?e = env_senderr
  let ?c = "\<lambda>d::nat. if d = 0 then 239 else (0::u32)"
  define u1 where "u1 = emit_packet ?e 0 s"
  obtain p1 where p1: "trace u1 = trace s @ [EvSendmsg 0 (datagram s 0) p1]"
    unfolding u1_def using emit_packet_keeps(12) [of ?e 0 s] by blast
  have u1: "InitError u1" "HeaderFound u1"
    "DMAReadPtr u1 = 3856" "DMAHeadPtr u1 = 4096" "DMABasePtr u1 = 4096"
    "DMATransferSize u1 = 4096" "PrevRateWord u1 = 0x80808080" "FrameLength u1 = 239"
    "DDCCounts u1 = ?c"
    "\<And>a. 3856 \<le> a \<Longrightarrow> a < 4096 \<Longrightarrow> DMAReadBuffer u1 a = 0x80"
    "IQReadPtr u1 0 = 5524" "IQHeadPtr u1 0 = 6964" "IQBasePtr u1 0 = 4096"
    "IQReadPtr u1 (Suc 0) = 4096" "IQHeadPtr u1 (Suc 0) = 4096" "IQBasePtr u1 (Suc 0) = 4096"
    "n_sdr u1 = n_sdr s" "n_send u1 = Suc (n_send s)" "Active u1 = Active s"
    unfolding u1_def
    by (simp_all add: emit_packet_keeps emit_packet_frame emit_packet_send s env_senderr_simps)
  define u2 where "u2 = emit_packet ?e 0 u1"
  obtain p2 where p2: "trace u2 = trace u1 @ [EvSendmsg 0 (datagram u1 0) p2]"
    unfolding u2_def using emit_packet_keeps(12) [of ?e 0 u1] by blast
  have u2: "InitError u2" "HeaderFound u2"
    "DMAReadPtr u2 = 3856" "DMAHeadPtr u2 = 4096" "DMABasePtr u2 = 4096"
    "DMATransferSize u2 = 4096" "PrevRateWord u2 = 0x80808080" "FrameLength u2 = 239"
    "DDCCounts u2 = ?c"
    "\<And>a. 3856 \<le> a \<Longrightarrow> a < 4096 \<Longrightarrow> DMAReadBuffer u2 a = 0x80"
    "IQReadPtr u2 0 = 6952" "IQHeadPtr u2 0 = 6964" "IQBasePtr u2 0 = 4096"
    "IQReadPtr u2 (Suc 0) = 4096" "IQHeadPtr u2 (Suc 0) = 4096" "IQBasePtr u2 (Suc 0) = 4096"
    "n_sdr u2 = n_sdr s" "n_send u2 = Suc (Suc (n_send s))" "Active u2 = Active s"
    unfolding u2_def
    by (simp_all add: emit_packet_keeps emit_packet_frame emit_packet_send u1)
  have "drain_ddc ?e 0 s = drain_ddc ?e 0 u1"
    unfolding u1_def by (rule drain_ddc_step) (simp add: s)
  also have "\<dots> = drain_ddc ?e 0 u2"
    unfolding u2_def by (rule drain_ddc_step) (simp add: u1)
  also have "\<dots> = u2"
    by (rule drain_ddc_stop) (simp add: u2)
  finally have d0: "drain_ddc ?e 0 s = u2" .
  define u3 where "u3 = compact_iq 0 u2"
  have u3: "InitError u3" "HeaderFound u3"
    "DMAReadPtr u3 = 3856" "DMAHeadPtr u3 = 4096" "DMABasePtr u3 = 4096"
    "DMATransferSize u3 = 4096" "PrevRateWord u3 = 0x80808080" "FrameLength u3 = 239"
    "DDCCounts u3 = ?c"
    "\<And>a. 3856 \<le> a \<Longrightarrow> a < 4096 \<Longrightarrow> DMAReadBuffer u3 a = 0x80"
    "IQReadPtr u3 0 = 4084" "IQHeadPtr u3 0 = 4096" "IQBasePtr u3 0 = 4096"
    "IQReadPtr u3 (Suc 0) = 4096" "IQHeadPtr u3 (Suc 0) = 4096" "IQBasePtr u3 (Suc 0) = 4096"
    "n_sdr u3 = n_sdr s" "n_send u3 = Suc (Suc (n_send s))" "Active u3 = Active s"
    "trace u3 = trace u2"
    by (simp_all add: u3_def compact_iq_def Let_def u2)
  have d1: "compact_iq (Suc 0) (drain_ddc ?e (Suc 0) u3) = u3"
  proof -
    have "drain_ddc ?e (Suc 0) u3 = u3"
      by (rule drain_ddc_stop) (simp add: u3)
    moreover have "compact_iq (Suc 0) u3 = u3"
      by (rule compact_iq_idle) (simp add: u3)
    ultimately show ?thesis by simp
  qed
  have d: "drain_all ?e s = u3"
    using drain_all_two [of ?e s] d1 by (simp add: env_senderr_simps d0 u3_def [symmetric])
  define t3 where "t3 = poll_fifo ?e u3"
  have t3: "InitError t3" "HeaderFound t3"
    "DMAReadPtr t3 = 3856" "DMAHeadPtr t3 = 4096" "DMABasePtr t3 = 4096"
    "DMATransferSize t3 = 4096" "PrevRateWord t3 = 0x80808080" "FrameLength t3 = 239"
    "DDCCounts t3 = ?c" "Depth t3 = 512"
    "\<And>a. 3856 \<le> a \<Longrightarrow> a < 4096 \<Longrightarrow> DMAReadBuffer t3 a = 0x80"
    "n_sdr t3 = n_sdr s" "n_send t3 = Suc (Suc (n_send s))" "Active t3 = Active s"
    "trace t3 = trace u2 @ [EvReadFIFOMonitorChannel]"
    "IQReadPtr t3 = IQReadPtr u3" "IQHeadPtr t3 = IQHeadPtr u3" "IQBasePtr t3 = IQBasePtr u3"
    by (simp_all add: t3_def poll_fifo_def ReadFIFOMonitorChannel_def Let_def u3 env_senderr_simps)
  have t4_def': "t4 = dma_read ?e (select_transfer_size t3)"
    unfolding t4_def d t3_def ..
  show "wait_fifo ?e (Suc f) (poll_fifo ?e (drain_all ?e s)) = Continue (poll_fifo ?e (drain_all ?e s))"
    unfolding d t3_def [symmetric] by (simp add: t3)
  show "InitError t4" "HeaderFound t4"
    "DMAReadPtr t4 = 3856" "DMAHeadPtr t4 = 8192" "DMABasePtr t4 = 4096"
    "DMATransferSize t4 = 4096" "PrevRateWord t4 = 0x80808080" "FrameLength t4 = 239"
    "DDCCounts t4 = ?c"
    "n_sdr t4 = n_sdr s" "n_send t4 = Suc (Suc (n_send s))" "Active t4 = Active s"
    "IQReadPtr t4 0 = 4084" "IQHeadPtr t4 0 = 4096" "IQBasePtr t4 0 = 4096"
    "IQReadPtr t4 (Suc 0) = 4096" "IQHeadPtr t4 (Suc 0) = 4096" "IQBasePtr t4 (Suc 0) = 4096"
    by (simp_all add: t4_def' dma_read_def select_transfer_size_def t3 u3 env_senderr_simps)
  have "trace t4 = trace u2 @ [EvReadFIFOMonitorChannel, EvDMAReadFromFPGA 4096 4096]"
    by (simp add: t4_def' dma_read_def select_transfer_size_def t3 env_senderr_simps)
  then have "trace t4 = trace s @ [EvSendmsg 0 (datagram s 0) p1, EvSendmsg 0 (datagram u1 0) p2,
                                  EvReadFIFOMonitorChannel, EvDMAReadFromFPGA 4096 4096]"
    by (simp add: p2 p1)
  then show "\<exists>h1 p1 h2 p2. trace t4 = trace s @ [EvSendmsg 0 h1 p1, EvSendmsg 0 h2 p2,
                                           EvReadFIFOMonitorChannel, EvDMAReadFromFPGA 4096 4096]"
    by blast
  show "DMAReadBuffer t4 a = 0x80" if "3856 \<le> a" "a < 8192" for a
    using that t3(11) [of a]
    by (simp add: t4_def' dma_read_def select_transfer_size_def t3 env_senderr_simps memcpy_def)
  show "IQHeadPtr (emit_packet ?e 0 s) 0 - IQReadPtr (emit_packet ?e 0 s) 0 = 1440"
    unfolding u1_def [symmetric] by (simp add: u1)
  show "drain_ddc ?e 0 s = emit_packet ?e 0 (emit_packet ?e 0 s)"
    unfolding d0 u2_def u1_def ..
  show "IQReadPtr (drain_ddc ?e 0 s) 0 = 6952" "IQHeadPtr (drain_ddc ?e 0 s) 0 = 6964"
    "IQBasePtr (drain_ddc ?e 0 s) 0 = 4096"
    unfolding d0 by (simp_all add: u2)
qed

text \<open>The parser on the residue of 240 bytes and the burst of 4096: two frames, 496 bytes left.\<close>

lemma second_parse:
  fixes t4 :: state
  assumes t4: "DMAReadPtr t4 = 3856" "DMAHeadPtr t4 = 8192" "PrevRateWord t4 = 0x80808080"
    "FrameLength t4 = 239" "DDCCounts t4 = (\<lambda>d. if d = 0 then 239 else 0)"
    "\<And>a. 3856 \<le> a \<Longrightarrow> a < 8192 \<Longrightarrow> DMAReadBuffer t4 a = 0x80"
  shows "parse_frames env_senderr (Suc (Suc (Suc f))) (word_of_int (DMAHeadPtr t4 - DMAReadPtr t4)) t4 =
           Continue (copy_frame env_senderr (copy_frame env_senderr t4))"
    and "decode_header env_senderr t4 = t4"
    and "DMAReadPtr (copy_frame env_senderr (copy_frame env_senderr t4)) = 7696"
    and "DMAHeadPtr (copy_frame env_senderr (copy_frame env_senderr t4)) = 8192"
proof -
  let ?e = env_senderr
  let ?c = "\<lambda>d::nat. if d = 0 then 239 else (0::u32)"
  define t7 where "t7 = copy_frame ?e t4"
  have t7: "DMAReadPtr t7 = 5776" "DMAHeadPtr t7 = 8192" "PrevRateWord t7 = 0x80808080"
    "FrameLength t7 = 239" "DDCCounts t7 = ?c"
    "\<And>a. 3856 \<le> a \<Longrightarrow> a < 8192 \<Longrightarrow> DMAReadBuffer t7 a = 0x80"
    unfolding t7_def
    by (simp_all add: copy_frame_keeps frame_senderr [OF t4(4,5)] t4)
  define t8 where "t8 = copy_frame ?e t7"
  have t8: "DMAReadPtr t8 = 7696" "DMAHeadPtr t8 = 8192" "PrevRateWord t8 = 0x80808080"
    "FrameLength t8 = 239" "DDCCounts t8 = ?c"
    "\<And>a. 3856 \<le> a \<Longrightarrow> a < 8192 \<Longrightarrow> DMAReadBuffer t8 a = 0x80"
    unfolding t8_def
    by (simp_all add: copy_frame_keeps frame_senderr [OF t7(4,5)] t7)
  have "parse_frames ?e (Suc (Suc (Suc f))) 4336 t4 = parse_frames ?e (Suc (Suc f)) (4336 - 1920) t7"
    unfolding t7_def by (rule parse_senderr(1)) (simp_all add: t4)
  also have "\<dots> = parse_frames ?e (Suc f) (4336 - 1920 - 1920) t8"
    unfolding t8_def by (rule parse_senderr(1)) (simp_all add: t7)
  also have "\<dots> = Continue t8"
    by (rule parse_senderr(2)) (simp_all add: t8)
  finally show "parse_frames ?e (Suc (Suc (Suc f))) (word_of_int (DMAHeadPtr t4 - DMAReadPtr t4)) t4
                     = Continue (copy_frame ?e (copy_frame ?e t4))"
    by (simp add: t4 t8_def t7_def)
  have "load_u32 (DMAReadBuffer t4) (DMAReadPtr t4) = 0x80808080"
    by (simp add: load_u32_def t4)
  then show "decode_header ?e t4 = t4"
    by (simp add: decode_header_def Let_def t4)
  show "DMAReadPtr (copy_frame ?e (copy_frame ?e t4)) = 7696"
    "DMAHeadPtr (copy_frame ?e (copy_frame ?e t4)) = 8192"
    using t8(1,2) unfolding t8_def t7_def .
qed





lemma state_stream_simps:
  "InitError state_stream = False" "HeaderFound state_stream = False"
  "DMAReadPtr state_stream = 4096" "DMAHeadPtr state_stream = 4096" "DMABasePtr state_stream = 4096"
  "DMATransferSize state_stream = 4096" "PrevRateWord state_stream = 0xFFFFFFFF"
  "IQReadPtr state_stream 0 = 4096" "IQHeadPtr state_stream 0 = 4096" "IQBasePtr state_stream 0 = 4096"
  "IQReadPtr state_stream (Suc 0) = 4096" "IQHeadPtr state_stream (Suc 0) = 4096"
  "IQBasePtr state_stream (Suc 0) = 4096"
proof -
  have al: "\<not> alloc_fails env_senderr"
    by (simp add: env_senderr_simps)
  show "InitError state_stream = False" "HeaderFound state_stream = False"
    "DMAReadPtr state_stream = 4096" "DMAHeadPtr state_stream = 4096" "DMABasePtr state_stream = 4096"
    "DMATransferSize state_stream = 4096" "PrevRateWord state_stream = 0xFFFFFFFF"
    "IQReadPtr state_stream 0 = 4096" "IQHeadPtr state_stream 0 = 4096" "IQBasePtr state_stream 0 = 4096"
    "IQReadPtr state_stream (Suc 0) = 4096" "IQHeadPtr state_stream (Suc 0) = 4096"
    "IQBasePtr state_stream (Suc 0) = 4096"
    by (simp_all add: state_stream_def arming_frame arming_rings thread_init_frame [OF al]
        env_senderr_simps state0_def VBASE_def)
qed

lemma state_packets_simps:
  "stream_iter env_senderr 4 state_stream = Continue (state_of (stream_iter env_senderr 4 state_stream))"
  "InitError state_packets = False" "HeaderFound state_packets"
  "DMAReadPtr state_packets = 3856" "DMAHeadPtr state_packets = 4096" "DMABasePtr state_packets = 4096"
  "DMATransferSize state_packets = 4096" "PrevRateWord state_packets = 0x80808080"
  "FrameLength state_packets = 239" "DDCCounts state_packets = (\<lambda>d. if d = 0 then 239 else 0)"
  "\<And>a. 3856 \<le> a \<Longrightarrow> a < 4096 \<Longrightarrow> DMAReadBuffer state_packets a = 0x80"
  "IQReadPtr state_packets 0 = 4096" "IQHeadPtr state_packets 0 = 6964" "IQBasePtr state_packets 0 = 4096"
  "IQReadPtr state_packets (Suc 0) = 4096" "IQHeadPtr state_packets (Suc 0) = 4096"
  "IQBasePtr state_packets (Suc 0) = 4096"
proof -
  have four: "(4 :: nat) = Suc (Suc (Suc (Suc 0)))"
    by simp
  obtain ta where ta: "stream_iter env_senderr 4 state_stream = Continue ta"
    "InitError ta = False" "HeaderFound ta"
    "DMAReadPtr ta = 3856" "DMAHeadPtr ta = 4096" "DMABasePtr ta = 4096"
    "DMATransferSize ta = 4096" "PrevRateWord ta = 0x80808080" "FrameLength ta = 239"
    "DDCCounts ta = (\<lambda>d. if d = 0 then 239 else 0)"
    "\<forall>a. 3856 \<le> a \<and> a < 4096 \<longrightarrow> DMAReadBuffer ta a = 0x80"
    "IQReadPtr ta 0 = 4096" "IQHeadPtr ta 0 = 6964" "IQBasePtr ta 0 = 4096"
    "IQReadPtr ta (Suc 0) = 4096" "IQHeadPtr ta (Suc 0) = 4096" "IQBasePtr ta (Suc 0) = 4096"
    unfolding four using pass_first [OF state_stream_simps, of "Suc 0"] by blast
  have sp: "state_packets = ta\<lparr>n_sdr := 3\<rparr>"
    by (simp add: state_packets_def ta(1))
  show "stream_iter env_senderr 4 state_stream = Continue (state_of (stream_iter env_senderr 4 state_stream))"
    by (simp add: ta(1))
  show "InitError state_packets = False" "HeaderFound state_packets"
    "DMAReadPtr state_packets = 3856" "DMAHeadPtr state_packets = 4096" "DMABasePtr state_packets = 4096"
    "DMATransferSize state_packets = 4096" "PrevRateWord state_packets = 0x80808080"
    "FrameLength state_packets = 239" "DDCCounts state_packets = (\<lambda>d. if d = 0 then 239 else 0)"
    "IQReadPtr state_packets 0 = 4096" "IQHeadPtr state_packets 0 = 6964" "IQBasePtr state_packets 0 = 4096"
    "IQReadPtr state_packets (Suc 0) = 4096" "IQHeadPtr state_packets (Suc 0) = 4096"
    "IQBasePtr state_packets (Suc 0) = 4096"
    using ta(2-10,12-17) by (simp_all add: sp)
  show "DMAReadBuffer state_packets a = 0x80" if "3856 \<le> a" "a < 4096" for a
    using that ta(11) by (simp add: sp)
qed

lemmas state_fill_simps = second_fill [OF state_packets_simps(2-17), folded state_fill_def]










lemma OutgoingDDCIQ_alloc:
  assumes "\<not> alloc_fails e"
  shows "OutgoingDDCIQ e f s =
           and_then (main_loop e f (state_of (thread_init e s))) (\<lambda>s1. Continue (shutdown s1))"
  unfolding OutgoingDDCIQ_def
  using thread_init_Continue [OF assms, of s] by (metis and_then.simps(1))




subsection \<open>Ring pointers\<close>

lemma uint_word_of_int_le:
  assumes "0 \<le> x"
  shows "uint (word_of_int x :: u32) \<le> x"
proof -
  have "uint (word_of_int x :: u32) = x mod 2 ^ 32"
    by (simp add: uint_word_of_int take_bit_eq_mod)
  also have "\<dots> \<le> x"
    using assms by (rule zmod_le_nonneg_dividend)
  finally show ?thesis .
qed

lemma uint_word_of_int_small:
  assumes "0 \<le> x" "x < 4294967296"
  shows "uint (word_of_int x :: u32) = x"
proof -
  have "uint (word_of_int x :: u32) = x mod 2 ^ 32"
    by (simp add: uint_word_of_int take_bit_eq_mod)
  also have "\<dots> = x"
    using assms by simp
  finally show ?thesis .
qed

lemma uint_less_of_unat: "unat (x :: u32) < n \<Longrightarrow> uint x < int n"
  by (simp only: uint_nat of_nat_less_iff)

lemma uint_le_of_unat: "unat (x :: u32) \<le> unat (y :: u32) \<Longrightarrow> uint x \<le> uint y"
  by (simp only: uint_nat of_nat_le_iff)

lemma head_bound_consumed:
  fixes h b r u :: int
  assumes "0 \<le> u" and "4 * (h - b) \<le> 3 * r"
  shows "4 * (h - b) \<le> 3 * (r + u)"
  using assms by simp

lemma head_bound_frame:
  fixes h b r c l rd :: int
  assumes "0 \<le> c" and "c \<le> l" and "4 * (h - b) \<le> 3 * r" and "rd \<le> h"
  shows "4 * (h + 6 * c - b) \<le> 3 * (r + 8 + 8 * l)" and "rd \<le> h + 6 * c"
  using assms by simp_all

lemma rings_drain_ok: "rings_drain e s \<Longrightarrow> rings_ok e s"
  unfolding rings_drain_def rings_ok_def ring_ok_def VBASE_def VDMABUFFERSIZE_def
  by auto

lemma rings_wait_drain: "rings_wait e s \<Longrightarrow> rings_drain e s"
  unfolding rings_drain_def rings_wait_def iq_drained_def VBASE_def
  by auto

lemma rings_wait_ok: "rings_wait e s \<Longrightarrow> rings_ok e s"
  by (rule rings_drain_ok [OF rings_wait_drain])

lemma rings_parse_ok:
  assumes "rings_parse e s"
  shows "rings_ok e s"
proof -
  have "ring_ok (IQBasePtr s d) (IQReadPtr s d) (IQHeadPtr s d)" if "d < VNUMDDC e" for d
  proof -
    from assms that have "IQBasePtr s d = 4096" "4096 - 1428 \<le> IQReadPtr s d"
      "IQReadPtr s d \<le> IQHeadPtr s d" "4 * (IQHeadPtr s d - (4096 + 1428)) \<le> 3 * DMAReadPtr s"
      "DMAReadPtr s \<le> DMAHeadPtr s" "DMAHeadPtr s \<le> 4096 + 32768"
      unfolding rings_parse_def VBASE_def by simp_all
    then show ?thesis
      unfolding ring_ok_def VBASE_def VDMABUFFERSIZE_def by simp
  qed
  moreover have "ring_ok (DMABasePtr s) (DMAReadPtr s) (DMAHeadPtr s)"
    using assms unfolding rings_parse_def ring_ok_def VBASE_def VDMABUFFERSIZE_def by simp
  ultimately show ?thesis
    by (simp add: rings_ok_def)
qed

lemma same_rings_refl: "same_rings s s"
  by (simp add: same_rings_def)

lemma same_rings_trans: "same_rings s s1 \<Longrightarrow> same_rings s1 s2 \<Longrightarrow> same_rings s s2"
  by (simp add: same_rings_def)

lemma same_rings_phase:
  assumes "same_rings s s'"
  shows "rings_drain e s' = rings_drain e s" "rings_wait e s' = rings_wait e s"
    "rings_parse e s' = rings_parse e s" "rings_ok e s' = rings_ok e s"
  using assms
  by (simp_all add: same_rings_def rings_drain_def rings_wait_def rings_parse_def rings_ok_def
      frame_ok_def iq_drained_def)

lemma same_rings_poll_fifo: "same_rings s (poll_fifo e s)"
  by (simp add: same_rings_def poll_fifo_def ReadFIFOMonitorChannel_def Let_def)

lemma same_rings_usleep: "same_rings s (usleep n s)"
  by (simp add: same_rings_def usleep_def)

lemma same_rings_select: "same_rings s (select_transfer_size s)"
  by (simp add: same_rings_def select_transfer_size_def)

lemma same_rings_exit: "same_rings s (state_of (exit_process c s))"
  by (simp add: same_rings_def exit_process_def)

lemma same_rings_wait_fifo: "same_rings s (state_of (wait_fifo e f s))"
proof (induction f arbitrary: s)
  case 0
  show ?case by (simp add: same_rings_refl)
next
  case (Suc f)
  have "same_rings s (poll_fifo e (usleep 500 s))"
    using same_rings_trans same_rings_usleep same_rings_poll_fifo by blast
  then have "same_rings s (state_of (wait_fifo e f (poll_fifo e (usleep 500 s))))"
    using Suc.IH same_rings_trans by blast
  then show ?case
    by (simp add: same_rings_refl)
qed

lemma same_rings_arm_fold: "same_rings s (fold (arm_ddc e) ds s)"
proof (induction ds arbitrary: s)
  case Nil
  show ?case by (simp add: same_rings_refl)
next
  case (Cons d ds)
  have "same_rings s (arm_ddc e d s)"
    by (simp add: same_rings_def arm_ddc_def)
  then show ?case
    using Cons.IH same_rings_trans by simp
qed

lemma same_rings_arming: "same_rings s (arming e s)"
proof -
  have "same_rings (s\<lparr>StartupCount := VSTARTUPDELAY\<rparr>)
          (fold (arm_ddc e) [0..<VNUMDDC e] (s\<lparr>StartupCount := VSTARTUPDELAY\<rparr>))"
    by (rule same_rings_arm_fold)
  then show ?thesis
    by (simp add: same_rings_def arming_def Let_def SetRXDDCEnabled_def)
qed

lemma same_rings_idle_fold: "same_rings s (fold (idle_ddc e) ds s)"
proof (induction ds arbitrary: s)
  case Nil
  show ?case by (simp add: same_rings_refl)
next
  case (Cons d ds)
  have "same_rings s (idle_ddc e d s)"
    by (simp add: same_rings_def idle_ddc_def)
  then show ?case
    using Cons.IH same_rings_trans by simp
qed

lemma same_rings_idle_loop: "same_rings s (state_of (idle_loop e f s))"
proof (induction f arbitrary: s)
  case 0
  show ?case by (simp add: idle_loop.simps same_rings_refl)
next
  case (Suc f)
  let ?s1 = "s\<lparr>n_sdr := Suc (n_sdr s)\<rparr>"
  let ?s2 = "usleep 100 ((fold (idle_ddc e) [0..<VNUMDDC e] ?s1)\<lparr>n_idle := Suc (n_idle ?s1)\<rparr>)"
  have a: "same_rings s ?s1"
    by (simp add: same_rings_def)
  have "same_rings ?s1 (fold (idle_ddc e) [0..<VNUMDDC e] ?s1)"
    by (rule same_rings_idle_fold)
  then have "same_rings s ?s2"
    using a by (simp add: same_rings_def usleep_def)
  then have "same_rings s (state_of (idle_loop e f ?s2))"
    using Suc.IH same_rings_trans by blast
  then show ?case
    using a by (simp add: idle_loop.simps read_SDRActive_def)
qed


lemma rings_drain_emit_packet:
  assumes "rings_drain e s" and "d < VNUMDDC e" and "1428 < IQHeadPtr s d - IQReadPtr s d"
  shows "rings_drain e (emit_packet e d s)"
proof -
  have "IQBasePtr s d' = VBASE \<and> VBASE - 1428 \<le> (if d' = d then IQReadPtr s d + 1428 else IQReadPtr s d') \<and>
        (if d' = d then IQReadPtr s d + 1428 else IQReadPtr s d') \<le> IQHeadPtr s d' \<and>
        IQHeadPtr s d' \<le> VBASE + 29076" if "d' < VNUMDDC e" for d'
    using assms that unfolding rings_drain_def by (cases "d' = d") auto
  then show ?thesis
    using assms(1)
    by (simp add: rings_drain_def frame_ok_def emit_packet_frame emit_packet_keeps)
qed

lemma rings_drain_drain_ddc:
  assumes "rings_drain e s" and "d < VNUMDDC e"
  shows "rings_drain e (drain_ddc e d s)"
  using assms(1)
  by (rule_tac drain_ddc_invariant [of "rings_drain e" d e s])
     (simp_all add: rings_drain_emit_packet assms(2))

lemma drain_ddc_drained:
  "IQHeadPtr (drain_ddc e d s) d - IQReadPtr (drain_ddc e d s) d \<le> 1428"
proof (induction e d s rule: drain_ddc.induct)
  case (1 e d s)
  show ?case
  proof (cases "IQHeadPtr s d - IQReadPtr s d > 1428")
    case False
    then show ?thesis by (simp add: drain_ddc_stop)
  next
    case True
    then have "int VIQBYTESPERFRAME < IQHeadPtr s d - IQReadPtr s d"
      by (simp add: VIQBYTESPERFRAME_def VIQSAMPLESPERFRAME_def)
    from "1.IH" [OF this] show ?thesis
      by (simp add: drain_ddc_step [OF True])
  qed
qed

lemma drain_ddc_other:
  assumes "d' \<noteq> d"
  shows "iq_drained (drain_ddc e d s) d' = iq_drained s d'"
proof -
  let ?J = "\<lambda>t. IQReadPtr t d' = IQReadPtr s d' \<and> IQHeadPtr t d' = IQHeadPtr s d' \<and>
                 IQBasePtr t d' = IQBasePtr s d'"
  have "?J (drain_ddc e d s)"
    by (rule_tac drain_ddc_invariant [of ?J d e s]) (simp_all add: emit_packet_frame assms)
  then show ?thesis
    by (simp add: iq_drained_def)
qed

lemma compact_iq_pointers:
  "DMAReadPtr (compact_iq d s) = DMAReadPtr s" "DMAHeadPtr (compact_iq d s) = DMAHeadPtr s"
  "DMABasePtr (compact_iq d s) = DMABasePtr s"
  "FrameLength (compact_iq d s) = FrameLength s" "DDCCounts (compact_iq d s) = DDCCounts s"
  "IQBasePtr (compact_iq d s) = IQBasePtr s"
  "d' \<noteq> d \<Longrightarrow> IQReadPtr (compact_iq d s) d' = IQReadPtr s d'"
  "d' \<noteq> d \<Longrightarrow> IQHeadPtr (compact_iq d s) d' = IQHeadPtr s d'"
  "\<not> IQReadPtr s d > IQBasePtr s d \<Longrightarrow> IQReadPtr (compact_iq d s) d = IQReadPtr s d"
  "\<not> IQReadPtr s d > IQBasePtr s d \<Longrightarrow> IQHeadPtr (compact_iq d s) d = IQHeadPtr s d"
  "IQReadPtr s d > IQBasePtr s d \<Longrightarrow> IQHeadPtr (compact_iq d s) d = IQBasePtr s d"
  "IQReadPtr s d > IQBasePtr s d \<Longrightarrow>
     IQReadPtr (compact_iq d s) d =
       IQBasePtr s d - uint (word_of_int (IQHeadPtr s d - IQReadPtr s d) :: u32)"
  by (simp_all add: compact_iq_def Let_def)

lemma compact_iq_other:
  assumes "d' \<noteq> d"
  shows "iq_drained (compact_iq d s) d' = iq_drained s d'"
  by (simp add: iq_drained_def compact_iq_pointers assms)

lemma compact_iq_drained:
  assumes "IQBasePtr s d = VBASE" "VBASE - 1428 \<le> IQReadPtr s d" "IQReadPtr s d \<le> IQHeadPtr s d"
    and "IQHeadPtr s d - IQReadPtr s d \<le> 1428"
  shows "iq_drained (compact_iq d s) d"
proof (cases "IQReadPtr s d > IQBasePtr s d")
  case False
  then show ?thesis
    using assms by (simp add: iq_drained_def compact_iq_pointers)
next
  case True
  have "uint (word_of_int (IQHeadPtr s d - IQReadPtr s d) :: u32) = IQHeadPtr s d - IQReadPtr s d"
    by (rule uint_word_of_int_small) (use assms in simp_all)
  then show ?thesis
    using assms True by (simp add: iq_drained_def compact_iq_pointers)
qed

lemma rings_drain_compact_iq:
  assumes "rings_drain e s" and "d < VNUMDDC e" and "IQHeadPtr s d - IQReadPtr s d \<le> 1428"
  shows "rings_drain e (compact_iq d s)"
proof -
  have dr: "iq_drained (compact_iq d s) d"
    by (rule compact_iq_drained) (use assms in \<open>simp_all add: rings_drain_def\<close>)
  have "IQBasePtr (compact_iq d s) d' = VBASE \<and> VBASE - 1428 \<le> IQReadPtr (compact_iq d s) d' \<and>
        IQReadPtr (compact_iq d s) d' \<le> IQHeadPtr (compact_iq d s) d' \<and>
        IQHeadPtr (compact_iq d s) d' \<le> VBASE + 29076" if "d' < VNUMDDC e" for d'
  proof (cases "d' = d")
    case True
    then show ?thesis
      using dr by (simp add: iq_drained_def VBASE_def)
  next
    case False
    then show ?thesis
      using assms(1) that by (simp add: rings_drain_def compact_iq_pointers)
  qed
  then show ?thesis
    using assms(1) by (simp add: rings_drain_def frame_ok_def compact_iq_pointers)
qed

lemma rings_drain_one:
  assumes "rings_drain e s" and "d < VNUMDDC e"
  shows "rings_drain e (compact_iq d (drain_ddc e d s))"
    and "iq_drained (compact_iq d (drain_ddc e d s)) d"
proof -
  have a: "rings_drain e (drain_ddc e d s)"
    by (rule rings_drain_drain_ddc [OF assms])
  show "rings_drain e (compact_iq d (drain_ddc e d s))"
    by (rule rings_drain_compact_iq [OF a assms(2) drain_ddc_drained])
  show "iq_drained (compact_iq d (drain_ddc e d s)) d"
    by (rule compact_iq_drained) (use a assms(2) drain_ddc_drained in \<open>simp_all add: rings_drain_def\<close>)
qed

lemma rings_wait_drain_all:
  assumes "rings_drain e s"
  shows "rings_wait e (drain_all e s)"
proof -
  let ?g = "\<lambda>DDC s. compact_iq DDC (drain_ddc e DDC s)"
  have "rings_drain e (fold ?g [0..<n] s) \<and> (\<forall>d<n. iq_drained (fold ?g [0..<n] s) d)"
    if "n \<le> VNUMDDC e" for n
    using that
  proof (induction n)
    case 0
    show ?case using assms by simp
  next
    case (Suc n)
    let ?s = "fold ?g [0..<n] s"
    have n: "n < VNUMDDC e"
      using Suc.prems by simp
    have ih: "rings_drain e ?s" "\<And>d. d < n \<Longrightarrow> iq_drained ?s d"
      using Suc.IH n by simp_all
    have st: "fold ?g [0..<Suc n] s = compact_iq n (drain_ddc e n ?s)"
      by simp
    have "iq_drained (compact_iq n (drain_ddc e n ?s)) d" if "d < Suc n" for d
    proof (cases "d = n")
      case True
      then show ?thesis
        using rings_drain_one(2) [OF ih(1) n] by simp
    next
      case False
      with that have "d < n" by simp
      then show ?thesis
        using False ih(2) by (simp add: compact_iq_other drain_ddc_other)
    qed
    then show ?case
      unfolding st using rings_drain_one(1) [OF ih(1) n] by blast
  qed
  from this [of "VNUMDDC e"] show ?thesis
    by (simp add: drain_all_def rings_wait_def rings_drain_def)
qed


lemma rings_wait_poll:
  assumes "rings_wait e s"
  shows "rings_wait e (state_of (wait_fifo e f (poll_fifo e s)))"
proof -
  have "same_rings s (state_of (wait_fifo e f (poll_fifo e s)))"
    using same_rings_trans same_rings_poll_fifo same_rings_wait_fifo by blast
  then show ?thesis
    using assms by (simp add: same_rings_phase)
qed

lemma burst_sizes:
  "uint (DMATransferSize (select_transfer_size s)) \<in> {4096, 8192, 16384, 32768}"
  by (simp add: select_transfer_size_def)

lemma rings_parse_dma_read:
  assumes "rings_wait e s"
  shows "rings_parse e (dma_read e (select_transfer_size s))"
proof -
  let ?s = "select_transfer_size s"
  have w: "rings_wait e ?s"
    using assms by (simp add: same_rings_phase [OF same_rings_select])
  have b: "4096 \<le> uint (DMATransferSize ?s)" "uint (DMATransferSize ?s) \<le> 32768"
    using burst_sizes [of s] by auto
  have "4 * (IQHeadPtr ?s d - (VBASE + 1428)) \<le> 3 * DMAReadPtr ?s" if "d < VNUMDDC e" for d
  proof -
    have "IQHeadPtr ?s d \<le> VBASE + 1428" "0 < DMAReadPtr ?s"
      using w that by (auto simp: rings_wait_def iq_drained_def)
    then show ?thesis by simp
  qed
  then show ?thesis
    using w b
    by (simp add: rings_parse_def rings_wait_def iq_drained_def frame_ok_def dma_read_def)
qed

lemma rings_parse_sync_scan:
  assumes "rings_parse e s"
  shows "rings_parse e (state_of (sync_scan f Cntr s))"
proof (induction f arbitrary: Cntr)
  case 0
  show ?case using assms by simp
next
  case (Suc f)
  show ?case
  proof (cases "Cntr < word_of_int (DMAHeadPtr s - DMAReadPtr s)")
    case False
    then show ?thesis using assms by simp
  next
    case True
    have ord: "0 \<le> DMAHeadPtr s - DMAReadPtr s"
      using assms by (simp add: rings_parse_def)
    from True have "uint Cntr < uint (word_of_int (DMAHeadPtr s - DMAReadPtr s) :: u32)"
      by (simp add: word_less_def)
    also have "\<dots> \<le> DMAHeadPtr s - DMAReadPtr s"
      by (rule uint_word_of_int_le [OF ord])
    finally have le: "DMAReadPtr s + uint Cntr \<le> DMAHeadPtr s"
      by simp
    have ge: "0 \<le> uint Cntr"
      by simp
    have "4 * (IQHeadPtr s d - (VBASE + 1428)) \<le> 3 * (DMAReadPtr s + uint Cntr)"
      if "d < VNUMDDC e" for d
    proof -
      have "4 * (IQHeadPtr s d - (VBASE + 1428)) \<le> 3 * DMAReadPtr s"
        using assms that by (simp add: rings_parse_def)
      with ge show ?thesis by (rule head_bound_consumed)
    qed
    moreover have "0 < DMAReadPtr s"
      using assms by (simp add: rings_parse_def)
    then have "0 < DMAReadPtr s + uint Cntr"
      using ge by (rule add_pos_nonneg)
    ultimately have "rings_parse e (s\<lparr>HeaderFound := True, DMAReadPtr := DMAReadPtr s + uint Cntr\<rparr>)"
      using assms le by (simp add: rings_parse_def frame_ok_def)
    then show ?thesis
      using True Suc.IH by simp
  qed
qed

lemma rings_parse_acquire_sync:
  assumes "rings_parse e s"
  shows "rings_parse e (state_of (acquire_sync f s))"
proof -
  have a: "rings_parse e (state_of (sync_scan f 16 s))"
    by (rule rings_parse_sync_scan [OF assms])
  have b: "rings_parse e (state_of (exit_process 1 (s1\<lparr>InitError := True\<rparr>)))" if "rings_parse e s1" for s1
  proof -
    have "same_rings s1 (state_of (exit_process 1 (s1\<lparr>InitError := True\<rparr>)))"
      by (simp add: same_rings_def exit_process_def)
    then show ?thesis
      using that by (simp add: same_rings_phase)
  qed
  show ?thesis
  proof (cases "HeaderFound s")
    case True
    then show ?thesis using assms by (simp add: acquire_sync_def)
  next
    case False
    show ?thesis
    proof (cases "sync_scan f 16 s")
      case (Continue s1)
      with a have "rings_parse e s1" by simp
      then show ?thesis
        using False Continue b by (simp add: acquire_sync_def)
    next
      case (ProcessExit s1)
      with a show ?thesis using False by (simp add: acquire_sync_def)
    next
      case (OutOfFuel s1)
      with a show ?thesis using False by (simp add: acquire_sync_def)
    qed
  qed
qed

lemma decode_header_bases:
  "DMABasePtr (decode_header e s) = DMABasePtr s" "IQBasePtr (decode_header e s) = IQBasePtr s"
  by (simp_all add: decode_header_def Let_def split_beta)

lemma frame_ok_decode_header:
  assumes "decoder_ok e" and "frame_ok e s"
  shows "frame_ok e (decode_header e s)"
proof (cases "load_u32 (DMAReadBuffer s) (DMAReadPtr s) \<noteq> PrevRateWord s")
  case False
  then show ?thesis
    using assms(2) by (simp add: decode_header_def Let_def)
next
  case True
  let ?a = "AnalyseDDCHeader e (load_u32 (DMAReadBuffer s) (DMAReadPtr s)) (DDCCounts s)"
  have "FrameLength (decode_header e s) = fst ?a" "DDCCounts (decode_header e s) = snd ?a"
    using True by (simp_all add: decode_header_def Let_def split_beta)
  then show ?thesis
    using assms(1) unfolding decoder_ok_def frame_ok_def by simp
qed

lemma rings_parse_decode_header:
  assumes "decoder_ok e" and "rings_parse e s"
  shows "rings_parse e (decode_header e s)"
proof -
  have "frame_ok e (decode_header e s)"
    using assms by (simp add: frame_ok_decode_header rings_parse_def)
  then show ?thesis
    using assms(2) by (simp add: rings_parse_def decode_header_frame decode_header_bases)
qed

lemma rings_parse_copy_frame:
  assumes "rings_parse e s" and "uint D = DMAHeadPtr s - DMAReadPtr s"
    and "(FrameLength s + 1) * 8 \<le> D"
  shows "rings_parse e (copy_frame e s)"
    and "uint (D - (FrameLength s + 1) * 8) = DMAHeadPtr (copy_frame e s) - DMAReadPtr (copy_frame e s)"
proof -
  have fo: "unat (FrameLength s) < 512" "\<And>d. d < VNUMDDC e \<Longrightarrow> unat (DDCCounts s d) \<le> unat (FrameLength s)"
    using assms(1) by (simp_all add: rings_parse_def frame_ok_def)
  have fit: "8 * (unat (FrameLength s) + 1) < 4294967296"
    using fo(1) by simp
  then have fit': "8 * unat (FrameLength s) < 4294967296"
    by simp
  have u1: "unat ((FrameLength s + 1) * 8) = 8 * (unat (FrameLength s) + 1)"
    by (rule unat_succ_times_8 [OF fit])
  have "int (unat (FrameLength s * 8)) = 8 * int (unat (FrameLength s))"
    by (simp add: unat_times_8 [OF fit'])
  then have u2: "uint (FrameLength s * 8) = 8 * int (unat (FrameLength s))"
    by (simp only: uint_nat)
  have "unat (D - (FrameLength s + 1) * 8) = unat D - 8 * (unat (FrameLength s) + 1)"
    unfolding unat_sub [OF assms(3)] u1 ..
  moreover have le: "8 * (unat (FrameLength s) + 1) \<le> unat D"
    using assms(3) unfolding word_le_nat_alt u1 .
  ultimately have "int (unat (D - (FrameLength s + 1) * 8)) = int (unat D) - 8 * (int (unat (FrameLength s)) + 1)"
    by simp
  then have u3: "uint (D - (FrameLength s + 1) * 8) = uint D - 8 * (int (unat (FrameLength s)) + 1)"
    by (simp only: uint_nat)
  have rd: "DMAReadPtr (copy_frame e s) = DMAReadPtr s + 8 + 8 * int (unat (FrameLength s))"
    unfolding copy_frame_result(1) u2 ..
  have hd: "DMAHeadPtr (copy_frame e s) = DMAHeadPtr s"
    by (rule copy_frame_result(2))
  show d: "uint (D - (FrameLength s + 1) * 8) = DMAHeadPtr (copy_frame e s) - DMAReadPtr (copy_frame e s)"
    unfolding u3 rd hd using assms(2) by simp
  have "0 \<le> uint (D - (FrameLength s + 1) * 8)"
    by simp
  with d have o: "DMAReadPtr (copy_frame e s) \<le> DMAHeadPtr (copy_frame e s)"
    by linarith
  have iq: "IQBasePtr (copy_frame e s) d = VBASE \<and> VBASE - 1428 \<le> IQReadPtr (copy_frame e s) d \<and>
            IQReadPtr (copy_frame e s) d \<le> IQHeadPtr (copy_frame e s) d \<and>
            4 * (IQHeadPtr (copy_frame e s) d - (VBASE + 1428)) \<le> 3 * DMAReadPtr (copy_frame e s)"
    if "d < VNUMDDC e" for d
  proof -
    have c: "unat (DDCCounts s d) \<le> unat (FrameLength s)"
      by (rule fo(2) [OF that])
    then have "6 * unat (DDCCounts s d) < 4294967296"
      using fo(1) by simp
    then have h: "IQHeadPtr (copy_frame e s) d = IQHeadPtr s d + 6 * int (unat (DDCCounts s d))"
      unfolding copy_frame_result(4) [OF that] by (simp only: unat_6_times)
    have p: "IQBasePtr s d = VBASE" "VBASE - 1428 \<le> IQReadPtr s d" "IQReadPtr s d \<le> IQHeadPtr s d"
      "4 * (IQHeadPtr s d - (VBASE + 1428)) \<le> 3 * DMAReadPtr s"
      using assms(1) that by (simp_all add: rings_parse_def)
    have "uint (DDCCounts s d) \<le> uint (FrameLength s)"
      using c by (rule uint_le_of_unat)
    from head_bound_frame [OF uint_ge_0 this p(4,3)]
    have "4 * (IQHeadPtr s d + 6 * uint (DDCCounts s d) - (VBASE + 1428))
            \<le> 3 * (DMAReadPtr s + 8 + 8 * uint (FrameLength s))"
      "IQReadPtr s d \<le> IQHeadPtr s d + 6 * uint (DDCCounts s d)"
      by simp_all
    then show ?thesis
      unfolding h rd copy_frame_result(3) copy_frame_keeps using p(1,2) by simp
  qed
  have "0 < DMAReadPtr s"
    using assms(1) by (simp add: rings_parse_def)
  then have "0 < DMAReadPtr s + 8"
    by simp
  moreover have "0 \<le> 8 * int (unat (FrameLength s))"
    by simp
  ultimately have "0 < DMAReadPtr (copy_frame e s)"
    unfolding rd by (rule add_pos_nonneg)
  then show "rings_parse e (copy_frame e s)"
    using assms(1) o iq
    by (simp add: rings_parse_def frame_ok_def copy_frame_keeps hd)
qed

lemma rings_parse_parse_frames:
  assumes "decoder_ok e"
  shows "rings_parse e s \<Longrightarrow> uint D = DMAHeadPtr s - DMAReadPtr s \<Longrightarrow>
         rings_parse e (state_of (parse_frames e f D s)) \<and>
         (\<forall>s'. parse_frames e f D s = Continue s' \<longrightarrow> DMAHeadPtr s' - DMAReadPtr s' < 4096)"
proof (induction f arbitrary: D s)
  case 0
  then show ?case by simp
next
  case (Suc f)
  let ?s1 = "decode_header e s"
  have s1: "rings_parse e ?s1"
    by (rule rings_parse_decode_header [OF assms Suc.prems(1)])
  have d1: "uint D = DMAHeadPtr ?s1 - DMAReadPtr ?s1"
    using Suc.prems(2) by (simp add: decode_header_frame)
  show ?case
  proof (cases "16 \<le> D")
    case False
    then have "uint D < 16"
      by (simp add: word_le_def)
    then show ?thesis
      using False Suc.prems by simp
  next
    case ge: True
    show ?thesis
    proof (cases "DMAReadBuffer s (DMAReadPtr s + 7) = 0x80")
      case False
      have "rings_parse e (state_of (exit_process 1 s))"
        using Suc.prems(1) by (simp add: same_rings_phase [OF same_rings_exit])
      then show ?thesis
        using ge False by (simp add: exit_process_def)
    next
      case sync: True
      show ?thesis
      proof (cases "(FrameLength ?s1 + 1) * 8 \<le> D")
        case True
        from rings_parse_copy_frame [OF s1 d1 True]
        have "rings_parse e (state_of (parse_frames e f (D - (FrameLength ?s1 + 1) * 8) (copy_frame e ?s1))) \<and>
              (\<forall>s'. parse_frames e f (D - (FrameLength ?s1 + 1) * 8) (copy_frame e ?s1) = Continue s'
                    \<longrightarrow> DMAHeadPtr s' - DMAReadPtr s' < 4096)"
          by (intro Suc.IH) simp_all
        then show ?thesis
          using ge sync True by (simp add: Let_def)
      next
        case False
        have fl: "unat (FrameLength ?s1) < 512"
          using s1 by (simp add: rings_parse_def frame_ok_def)
        then have "8 * (unat (FrameLength ?s1) + 1) < 4294967296"
          by simp
        then have u: "unat ((FrameLength ?s1 + 1) * 8) = 8 * (unat (FrameLength ?s1) + 1)"
          by (rule unat_succ_times_8)
        have "unat D < unat ((FrameLength ?s1 + 1) * 8)"
          using False unfolding word_le_nat_alt by simp
        then have "unat D < 4096"
          unfolding u using fl by simp
        then have "uint D < 4096"
          using uint_less_of_unat [of D 4096] by simp
        then have "DMAHeadPtr ?s1 - DMAReadPtr ?s1 < 4096"
          using d1 by simp
        then show ?thesis
          using ge sync False s1 by (simp add: Let_def)
      qed
    qed
  qed
qed

lemma compact_dma_pointers:
  "IQReadPtr (compact_dma s) = IQReadPtr s" "IQHeadPtr (compact_dma s) = IQHeadPtr s"
  "IQBasePtr (compact_dma s) = IQBasePtr s"
  "FrameLength (compact_dma s) = FrameLength s" "DDCCounts (compact_dma s) = DDCCounts s"
  "DMABasePtr (compact_dma s) = DMABasePtr s"
  "\<not> DMAReadPtr s > DMABasePtr s \<Longrightarrow> DMAReadPtr (compact_dma s) = DMAReadPtr s"
  "\<not> DMAReadPtr s > DMABasePtr s \<Longrightarrow> DMAHeadPtr (compact_dma s) = DMAHeadPtr s"
  "DMAReadPtr s > DMABasePtr s \<Longrightarrow> DMAHeadPtr (compact_dma s) = DMABasePtr s"
  "DMAReadPtr s > DMABasePtr s \<Longrightarrow>
     DMAReadPtr (compact_dma s) = DMABasePtr s - uint (word_of_int (DMAHeadPtr s - DMAReadPtr s) :: u32)"
  by (simp_all add: compact_dma_def Let_def)

lemma rings_drain_compact_dma:
  assumes "rings_parse e s" and "DMAHeadPtr s - DMAReadPtr s < 4096"
  shows "rings_drain e (compact_dma s)"
proof -
  have p: "DMABasePtr s = VBASE" "DMAReadPtr s \<le> DMAHeadPtr s" "VBASE + 4096 \<le> DMAHeadPtr s"
    "DMAHeadPtr s \<le> VBASE + 32768"
    using assms(1) by (simp_all add: rings_parse_def)
  have gt: "DMAReadPtr s > DMABasePtr s"
    using p assms(2) by simp
  have "uint (word_of_int (DMAHeadPtr s - DMAReadPtr s) :: u32) = DMAHeadPtr s - DMAReadPtr s"
    by (rule uint_word_of_int_small) (use p assms(2) in simp_all)
  then have rd: "DMAReadPtr (compact_dma s) = VBASE - (DMAHeadPtr s - DMAReadPtr s)"
    and hd: "DMAHeadPtr (compact_dma s) = VBASE"
    unfolding compact_dma_pointers(9) [OF gt] compact_dma_pointers(10) [OF gt] p(1) by simp_all
  have "IQBasePtr s d = VBASE \<and> VBASE - 1428 \<le> IQReadPtr s d \<and> IQReadPtr s d \<le> IQHeadPtr s d \<and>
        IQHeadPtr s d \<le> VBASE + 29076" if "d < VNUMDDC e" for d
  proof -
    have "IQBasePtr s d = VBASE" "VBASE - 1428 \<le> IQReadPtr s d" "IQReadPtr s d \<le> IQHeadPtr s d"
      "4 * (IQHeadPtr s d - (VBASE + 1428)) \<le> 3 * DMAReadPtr s"
      using assms(1) that by (simp_all add: rings_parse_def)
    then show ?thesis
      using p unfolding VBASE_def by simp
  qed
  then show ?thesis
    using assms p unfolding rd hd rings_drain_def
    by (simp add: rings_parse_def frame_ok_def compact_dma_pointers rd hd VBASE_def)
qed


lemma parse_count:
  assumes "rings_parse e s"
  shows "uint (word_of_int (DMAHeadPtr s - DMAReadPtr s) :: u32) = DMAHeadPtr s - DMAReadPtr s"
proof (rule uint_word_of_int_small)
  show "0 \<le> DMAHeadPtr s - DMAReadPtr s"
    using assms by (simp add: rings_parse_def)
  have "0 < DMAReadPtr s" "DMAHeadPtr s \<le> VBASE + 32768"
    using assms by (simp_all add: rings_parse_def)
  then show "DMAHeadPtr s - DMAReadPtr s < 4294967296"
    by (simp add: VBASE_def)
qed

lemma rings_stream_iter:
  assumes "decoder_ok e" and "rings_drain e s"
  shows "(rings_drain e (state_of (stream_iter e f s)) \<or> rings_parse e (state_of (stream_iter e f s))) \<and>
         (\<forall>s'. stream_iter e f s = Continue s' \<longrightarrow> rings_drain e s')"
proof -
  define w where "w = wait_fifo e f (poll_fifo e (drain_all e s))"
  have w: "rings_wait e (state_of w)"
    unfolding w_def by (intro rings_wait_poll rings_wait_drain_all assms)
  have it: "stream_iter e f s = and_then w
       (\<lambda>s1. and_then (acquire_sync f (dma_read e (select_transfer_size s1)))
         (\<lambda>s2. and_then (parse_frames e f (word_of_int (DMAHeadPtr s2 - DMAReadPtr s2)) s2)
           (\<lambda>s3. Continue (compact_dma s3))))"
    unfolding stream_iter_def w_def ..
  show ?thesis
  proof (cases w)
    case (Continue s1)
    define a where "a = acquire_sync f (dma_read e (select_transfer_size s1))"
    have "rings_wait e s1"
      using w by (simp add: Continue)
    then have a: "rings_parse e (state_of a)"
      unfolding a_def by (intro rings_parse_acquire_sync rings_parse_dma_read)
    have it1: "stream_iter e f s = and_then a
         (\<lambda>s2. and_then (parse_frames e f (word_of_int (DMAHeadPtr s2 - DMAReadPtr s2)) s2)
           (\<lambda>s3. Continue (compact_dma s3)))"
      unfolding it Continue a_def by (simp only: and_then.simps)
    show ?thesis
    proof (cases a)
      case c2: (Continue s2)
      define p where "p = parse_frames e f (word_of_int (DMAHeadPtr s2 - DMAReadPtr s2)) s2"
      have s2: "rings_parse e s2"
        using a by (simp add: c2)
      from rings_parse_parse_frames [OF assms(1) s2 parse_count [OF s2], of f]
      have p: "rings_parse e (state_of p)"
        "\<And>s'. p = Continue s' \<Longrightarrow> DMAHeadPtr s' - DMAReadPtr s' < 4096"
        unfolding p_def by blast+
      have it2: "stream_iter e f s = and_then p (\<lambda>s3. Continue (compact_dma s3))"
        unfolding it1 c2 p_def by (simp only: and_then.simps)
      show ?thesis
      proof (cases p)
        case c3: (Continue s3)
        have "rings_parse e s3" "DMAHeadPtr s3 - DMAReadPtr s3 < 4096"
          using p by (simp_all add: c3)
        then have "rings_drain e (compact_dma s3)"
          by (rule rings_drain_compact_dma)
        then show ?thesis
          unfolding it2 c3 by simp
      qed (use p(1) in \<open>simp_all add: it2\<close>)
    qed (use a in \<open>simp_all add: it1\<close>)
  next
    case (OutOfFuel s1)
    then show ?thesis
      using w rings_wait_drain [of e s1] by (simp add: it)
  next
    case (ProcessExit s1)
    then show ?thesis
      using w rings_wait_drain [of e s1] by (simp add: it)
  qed
qed

lemma rings_streaming_loop:
  assumes "decoder_ok e"
  shows "rings_drain e s \<Longrightarrow>
         (rings_drain e (state_of (streaming_loop e f s)) \<or>
          rings_parse e (state_of (streaming_loop e f s))) \<and>
         (\<forall>s'. streaming_loop e f s = Continue s' \<longrightarrow> rings_drain e s')"
proof (induction f arbitrary: s)
  case 0
  then show ?case by (simp add: streaming_loop.simps)
next
  case (Suc f)
  let ?s1 = "s\<lparr>n_sdr := Suc (n_sdr s)\<rparr>"
  have "same_rings s ?s1"
    by (simp add: same_rings_def)
  then have s1: "rings_drain e ?s1"
    using Suc.prems by (simp add: same_rings_phase)
  note it = rings_stream_iter [OF assms s1, of f]
  let ?r = "and_then (stream_iter e f ?s1) (streaming_loop e f)"
  have "(rings_drain e (state_of ?r) \<or> rings_parse e (state_of ?r)) \<and>
        (\<forall>s'. ?r = Continue s' \<longrightarrow> rings_drain e s')"
  proof (cases "stream_iter e f ?s1")
    case (Continue s2)
    with it have "rings_drain e s2" by simp
    from Suc.IH [OF this] show ?thesis
      by (simp add: Continue)
  qed (use it in simp_all)
  then show ?case
    using Suc.prems s1 by (simp add: streaming_loop.simps read_SDRActive_def)
qed

lemma rings_main_loop:
  assumes "decoder_ok e"
  shows "rings_drain e s \<Longrightarrow>
         rings_drain e (state_of (main_loop e f s)) \<or> rings_parse e (state_of (main_loop e f s))"
proof (induction f arbitrary: s)
  case 0
  then show ?case by (simp add: main_loop.simps)
next
  case (Suc f)
  show ?case
  proof (cases "InitError s")
    case True
    then show ?thesis using Suc.prems by (simp add: main_loop.simps)
  next
    case False
    have st: "main_loop e (Suc f) s =
        and_then (idle_loop e f s) (\<lambda>s1. and_then (streaming_loop e f (arming e s1)) (main_loop e f))"
      using False by (rule main_loop_pass)
    have i: "rings_drain e (state_of (idle_loop e f s))"
      using Suc.prems by (simp add: same_rings_phase [OF same_rings_idle_loop])
    show ?thesis
    proof (cases "idle_loop e f s")
      case (Continue s1)
      have "rings_drain e s1"
        using i by (simp add: Continue)
      then have "rings_drain e (arming e s1)"
        by (simp add: same_rings_phase [OF same_rings_arming])
      note sl = rings_streaming_loop [OF assms this, of f]
      show ?thesis
      proof (cases "streaming_loop e f (arming e s1)")
        case c2: (Continue s2)
        with sl have "rings_drain e s2" by simp
        from Suc.IH [OF this] show ?thesis
          unfolding st Continue by (simp add: c2)
      qed (use sl in \<open>simp_all add: st Continue\<close>)
    qed (use i in \<open>simp_all add: st\<close>)
  qed
qed

lemma rings_thread_init:
  assumes "\<not> alloc_fails e" and "frame_ok e s"
  shows "rings_drain e (state_of (thread_init e s))"
  using assms(2)
  by (simp add: rings_drain_def frame_ok_def thread_init_frame [OF assms(1)] VBASE_def)

lemma rings_OutgoingDDCIQ:
  assumes "decoder_ok e" and "\<not> alloc_fails e" and "frame_ok e s"
  shows "rings_ok e (state_of (OutgoingDDCIQ e f s))"
proof -
  let ?t = "state_of (thread_init e s)"
  have m: "rings_ok e (state_of (main_loop e f ?t))"
    using rings_main_loop [OF assms(1) rings_thread_init [OF assms(2,3)], of f]
      rings_drain_ok rings_parse_ok by blast
  have "same_rings s1 (shutdown s1)" for s1
    by (simp add: same_rings_def shutdown_def)
  then have sh: "rings_ok e (shutdown s1) = rings_ok e s1" for s1
    by (simp add: same_rings_phase)
  have "OutgoingDDCIQ e f s = and_then (main_loop e f ?t) (\<lambda>s1. Continue (shutdown s1))"
    by (rule OutgoingDDCIQ_alloc [OF assms(2)])
  then show ?thesis
    using m by (cases "main_loop e f ?t") (simp_all add: sh)
qed

lemma decoder_ok_senderr: "decoder_ok env_senderr"
  by (simp add: decoder_ok_def env_senderr_simps)

lemma same_rings_n_sdr: "same_rings s (s\<lparr>n_sdr := n\<rparr>)"
  by (simp add: same_rings_def)

text \<open>
  C2 fails as stated. In the run of \<open>env1\<close> the first pass of the streaming loop starts with
  the three pointers of the DMA ring at 4096. The pass reads 4096 bytes, finds the header at
  offset 16 and an incomplete frame behind it; its compaction moves the 4080 bytes of residue
  below the base and leaves the read pointer at 16, below the base pointer.
\<close>

theorem read_pointer_below_base:
  "DMABasePtr state_armed = 4096 \<and> DMAReadPtr state_armed = 4096 \<and> DMAHeadPtr state_armed = 4096 \<and>
   DMABasePtr (state_of (stream_iter env1 (Suc 0) state_armed)) = 4096 \<and>
   DMAReadPtr (state_of (stream_iter env1 (Suc 0) state_armed)) = 16 \<and>
   DMAHeadPtr (state_of (stream_iter env1 (Suc 0) state_armed)) = 4096"
proof -
  have "\<not> alloc_fails env1"
    by (simp add: env1_simps)
  then have "DMABasePtr state_armed = 4096 \<and> DMAReadPtr state_armed = 4096 \<and> DMAHeadPtr state_armed = 4096"
    by (simp add: state_armed_def arming_rings thread_init_frame VBASE_def)
  moreover obtain t where "stream_iter env1 (Suc 0) state_armed = Continue t"
    "DMABasePtr t = 4096" "DMAReadPtr t = 16" "DMAHeadPtr t = 4096"
    using run_stop_pass unfolding state_armed_def by blast
  ultimately show ?thesis
    by simp
qed

text \<open>
  C2, amended. Let \<open>AnalyseDDCHeader\<close> return only frames that fit the rings (\<open>decoder_ok\<close>), and
  let the frame the parser holds when the thread starts be such a frame. Then after every
  operation on a ring the read pointer lies in the buffer, at or below the head, and the head
  is at most the end of the buffer (\<open>rings_ok\<close>): in the state the thread's initialisation
  leaves; in every state in which the loop of line 144, the streaming loop, a pass of it and
  the thread function stop, whatever the fuel; after arming; after each packet of a drain
  loop, which takes 1428 bytes off a ring; after the compaction of the ring of a DDC and after
  the whole \<open>for\<close> loop of line 177; after the readings of the FIFO monitor and the DMA read,
  which moves the head of the DMA ring by the burst size; after the scan for the first header;
  after each frame the parser copies, which takes the frame off the DMA ring and moves the
  head of the ring of each DDC by 6 times its count, and after the whole parser loop; after
  the compaction of the DMA ring. The read pointer can be below the base: a compaction that
  takes place leaves the head at the base and the read pointer below it by the residue, which
  is less than 4096 bytes in the DMA ring and at most 1428 bytes in the ring of a DDC. No
  operation fails or checks a head against the end of the buffer; a head stays in the buffer
  because a burst is at most 32768 bytes and lands at the base, and because a DDC gets six
  bytes for at most each slot of eight that the parser consumes.
\<close>

theorem ring_pointers:
  assumes "decoder_ok e"
  shows
  "(rings_drain e s \<or> rings_wait e s \<or> rings_parse e s \<longrightarrow> rings_ok e s) \<and>
   (\<not> alloc_fails e \<and> frame_ok e s \<longrightarrow>
      rings_drain e (state_of (thread_init e s)) \<and> rings_ok e (state_of (OutgoingDDCIQ e f s))) \<and>
   (rings_drain e s \<longrightarrow>
      rings_drain e (arming e s) \<and> rings_ok e (state_of (main_loop e f s)) \<and>
      rings_ok e (state_of (streaming_loop e f s)) \<and> rings_ok e (state_of (stream_iter e f s)) \<and>
      rings_wait e (drain_all e s)) \<and>
   (rings_drain e s \<and> stream_iter e f s = Continue s' \<longrightarrow> rings_drain e s') \<and>
   (rings_drain e s \<and> d < VNUMDDC e \<and> 1428 < IQHeadPtr s d - IQReadPtr s d \<longrightarrow>
      rings_drain e (emit_packet e d s)) \<and>
   (rings_drain e s \<and> d < VNUMDDC e \<and> IQHeadPtr s d - IQReadPtr s d \<le> 1428 \<longrightarrow>
      rings_drain e (compact_iq d s) \<and> iq_drained (compact_iq d s) d) \<and>
   (rings_wait e s \<longrightarrow>
      rings_wait e (state_of (wait_fifo e f (poll_fifo e s))) \<and>
      rings_parse e (dma_read e (select_transfer_size s))) \<and>
   (rings_parse e s \<longrightarrow>
      rings_parse e (state_of (acquire_sync f s)) \<and>
      rings_parse e (state_of (parse_frames e f (word_of_int (DMAHeadPtr s - DMAReadPtr s)) s))) \<and>
   (rings_parse e s \<and> uint D = DMAHeadPtr s - DMAReadPtr s \<and>
    (FrameLength (decode_header e s) + 1) * 8 \<le> D \<longrightarrow>
      rings_parse e (copy_frame e (decode_header e s))) \<and>
   (rings_parse e s \<and>
    parse_frames e f (word_of_int (DMAHeadPtr s - DMAReadPtr s)) s = Continue s' \<longrightarrow>
      DMAHeadPtr s' - DMAReadPtr s' < 4096 \<and> rings_drain e (compact_dma s')) \<and>
   (DMAReadPtr s > DMABasePtr s \<longrightarrow>
      DMAHeadPtr (compact_dma s) = DMABasePtr s \<and>
      DMAReadPtr (compact_dma s) =
        DMABasePtr s - uint (word_of_int (DMAHeadPtr s - DMAReadPtr s) :: u32)) \<and>
   (IQReadPtr s d > IQBasePtr s d \<longrightarrow>
      IQHeadPtr (compact_iq d s) d = IQBasePtr s d \<and>
      IQReadPtr (compact_iq d s) d =
        IQBasePtr s d - uint (word_of_int (IQHeadPtr s d - IQReadPtr s d) :: u32)) \<and>
   DMAHeadPtr (dma_read e s) = DMAHeadPtr s + uint (DMATransferSize s) \<and>
   (d < VNUMDDC e \<longrightarrow> IQHeadPtr (copy_frame e s) d = IQHeadPtr s d + uint (6 * DDCCounts s d))"
proof -
  have c1: "rings_drain e s \<or> rings_wait e s \<or> rings_parse e s \<longrightarrow> rings_ok e s"
    using rings_drain_ok rings_wait_ok rings_parse_ok by blast
  have c2: "\<not> alloc_fails e \<and> frame_ok e s \<longrightarrow>
      rings_drain e (state_of (thread_init e s)) \<and> rings_ok e (state_of (OutgoingDDCIQ e f s))"
    using rings_thread_init rings_OutgoingDDCIQ [OF assms] by blast
  have c3: "rings_drain e s \<longrightarrow>
      rings_drain e (arming e s) \<and> rings_ok e (state_of (main_loop e f s)) \<and>
      rings_ok e (state_of (streaming_loop e f s)) \<and> rings_ok e (state_of (stream_iter e f s)) \<and>
      rings_wait e (drain_all e s)"
  proof
    assume s: "rings_drain e s"
    have "rings_drain e (arming e s)"
      using s by (simp add: same_rings_phase [OF same_rings_arming])
    moreover have "rings_ok e (state_of (main_loop e f s))"
      using rings_main_loop [OF assms s, of f] rings_drain_ok rings_parse_ok by blast
    moreover have "rings_ok e (state_of (streaming_loop e f s))"
      using rings_streaming_loop [OF assms s, of f] rings_drain_ok rings_parse_ok by blast
    moreover have "rings_ok e (state_of (stream_iter e f s))"
      using rings_stream_iter [OF assms s, of f] rings_drain_ok rings_parse_ok by blast
    moreover have "rings_wait e (drain_all e s)"
      by (rule rings_wait_drain_all [OF s])
    ultimately show "rings_drain e (arming e s) \<and> rings_ok e (state_of (main_loop e f s)) \<and>
      rings_ok e (state_of (streaming_loop e f s)) \<and> rings_ok e (state_of (stream_iter e f s)) \<and>
      rings_wait e (drain_all e s)"
      by simp
  qed
  have c4: "rings_drain e s \<and> stream_iter e f s = Continue s' \<longrightarrow> rings_drain e s'"
    using rings_stream_iter [OF assms, of s f] by blast
  have c5: "rings_drain e s \<and> d < VNUMDDC e \<and> 1428 < IQHeadPtr s d - IQReadPtr s d \<longrightarrow>
      rings_drain e (emit_packet e d s)"
    using rings_drain_emit_packet by blast
  have c6: "rings_drain e s \<and> d < VNUMDDC e \<and> IQHeadPtr s d - IQReadPtr s d \<le> 1428 \<longrightarrow>
      rings_drain e (compact_iq d s) \<and> iq_drained (compact_iq d s) d"
  proof
    assume a: "rings_drain e s \<and> d < VNUMDDC e \<and> IQHeadPtr s d - IQReadPtr s d \<le> 1428"
    then have "rings_drain e (compact_iq d s)"
      using rings_drain_compact_iq by blast
    moreover have "iq_drained (compact_iq d s) d"
      by (rule compact_iq_drained) (use a in \<open>simp_all add: rings_drain_def\<close>)
    ultimately show "rings_drain e (compact_iq d s) \<and> iq_drained (compact_iq d s) d"
      by simp
  qed
  have c7: "rings_wait e s \<longrightarrow>
      rings_wait e (state_of (wait_fifo e f (poll_fifo e s))) \<and>
      rings_parse e (dma_read e (select_transfer_size s))"
    using rings_wait_poll rings_parse_dma_read by blast
  have c8: "rings_parse e s \<longrightarrow>
      rings_parse e (state_of (acquire_sync f s)) \<and>
      rings_parse e (state_of (parse_frames e f (word_of_int (DMAHeadPtr s - DMAReadPtr s)) s))"
  proof
    assume s: "rings_parse e s"
    have "rings_parse e (state_of (parse_frames e f (word_of_int (DMAHeadPtr s - DMAReadPtr s)) s))"
      using rings_parse_parse_frames [OF assms s parse_count [OF s]] by blast
    then show "rings_parse e (state_of (acquire_sync f s)) \<and>
      rings_parse e (state_of (parse_frames e f (word_of_int (DMAHeadPtr s - DMAReadPtr s)) s))"
      using rings_parse_acquire_sync [OF s] by simp
  qed
  have c9: "rings_parse e s \<and> uint D = DMAHeadPtr s - DMAReadPtr s \<and>
    (FrameLength (decode_header e s) + 1) * 8 \<le> D \<longrightarrow>
      rings_parse e (copy_frame e (decode_header e s))"
  proof
    assume a: "rings_parse e s \<and> uint D = DMAHeadPtr s - DMAReadPtr s \<and>
      (FrameLength (decode_header e s) + 1) * 8 \<le> D"
    then have "rings_parse e (decode_header e s)"
      using rings_parse_decode_header [OF assms] by blast
    moreover have "uint D = DMAHeadPtr (decode_header e s) - DMAReadPtr (decode_header e s)"
      using a by (simp add: decode_header_frame)
    ultimately show "rings_parse e (copy_frame e (decode_header e s))"
      using a by (intro rings_parse_copy_frame(1) [of e _ D]) simp_all
  qed
  have c10: "rings_parse e s \<and>
    parse_frames e f (word_of_int (DMAHeadPtr s - DMAReadPtr s)) s = Continue s' \<longrightarrow>
      DMAHeadPtr s' - DMAReadPtr s' < 4096 \<and> rings_drain e (compact_dma s')"
  proof
    assume a: "rings_parse e s \<and>
      parse_frames e f (word_of_int (DMAHeadPtr s - DMAReadPtr s)) s = Continue s'"
    then have s: "rings_parse e s" by simp
    from rings_parse_parse_frames [OF assms s parse_count [OF s]] a
    have "rings_parse e s'" "DMAHeadPtr s' - DMAReadPtr s' < 4096"
      by (metis state_of.simps(3))+
    then show "DMAHeadPtr s' - DMAReadPtr s' < 4096 \<and> rings_drain e (compact_dma s')"
      using rings_drain_compact_dma by blast
  qed
  have c11: "DMAReadPtr s > DMABasePtr s \<longrightarrow>
      DMAHeadPtr (compact_dma s) = DMABasePtr s \<and>
      DMAReadPtr (compact_dma s) =
        DMABasePtr s - uint (word_of_int (DMAHeadPtr s - DMAReadPtr s) :: u32)"
    by (simp add: compact_dma_pointers)
  have c12: "IQReadPtr s d > IQBasePtr s d \<longrightarrow>
      IQHeadPtr (compact_iq d s) d = IQBasePtr s d \<and>
      IQReadPtr (compact_iq d s) d =
        IQBasePtr s d - uint (word_of_int (IQHeadPtr s d - IQReadPtr s d) :: u32)"
    by (simp add: compact_iq_pointers)
  have c13: "DMAHeadPtr (dma_read e s) = DMAHeadPtr s + uint (DMATransferSize s)"
    by (simp add: dma_read_def)
  have c14: "d < VNUMDDC e \<longrightarrow> IQHeadPtr (copy_frame e s) d = IQHeadPtr s d + uint (6 * DDCCounts s d)"
    using copy_frame_result(4) [of d e s] by simp
  show ?thesis
    by (intro conjI c1 c2 c3 c4 c5 c6 c7 c8 c9 c10 c11 c12 c13 c14)
qed

theorem ring_pointers_witness:
  "decoder_ok env_senderr \<and> \<not> alloc_fails env_senderr \<and> frame_ok env_senderr state0 \<and>
   rings_drain env_senderr (state_of (thread_init env_senderr state0)) \<and>
   rings_ok env_senderr (state_of (OutgoingDDCIQ env_senderr 6 state0)) \<and>
   rings_drain env_senderr state_stream \<and>
   stream_iter env_senderr 4 state_stream = Continue (state_of (stream_iter env_senderr 4 state_stream)) \<and>
   rings_drain env_senderr (state_of (stream_iter env_senderr 4 state_stream)) \<and>
   rings_drain env_senderr state_packets \<and> 0 < VNUMDDC env_senderr \<and>
   1428 < IQHeadPtr state_packets 0 - IQReadPtr state_packets 0 \<and>
   rings_drain env_senderr (emit_packet env_senderr 0 state_packets) \<and>
   IQHeadPtr (drain_ddc env_senderr 0 state_packets) 0 -
     IQReadPtr (drain_ddc env_senderr 0 state_packets) 0 \<le> 1428 \<and>
   IQReadPtr (drain_ddc env_senderr 0 state_packets) 0 >
     IQBasePtr (drain_ddc env_senderr 0 state_packets) 0 \<and>
   rings_drain env_senderr (compact_iq 0 (drain_ddc env_senderr 0 state_packets)) \<and>
   IQHeadPtr (compact_iq 0 (drain_ddc env_senderr 0 state_packets)) 0 = 4096 \<and>
   IQReadPtr (compact_iq 0 (drain_ddc env_senderr 0 state_packets)) 0 = 4084 \<and>
   rings_wait env_senderr (drain_all env_senderr state_packets) \<and>
   rings_parse env_senderr state_fill \<and>
   uint (4336 :: u32) = DMAHeadPtr state_fill - DMAReadPtr state_fill \<and>
   (FrameLength (decode_header env_senderr state_fill) + 1) * 8 \<le> 4336 \<and>
   rings_parse env_senderr (copy_frame env_senderr (decode_header env_senderr state_fill)) \<and>
   parse_frames env_senderr 3 (word_of_int (DMAHeadPtr state_fill - DMAReadPtr state_fill)) state_fill =
     Continue (copy_frame env_senderr (copy_frame env_senderr state_fill)) \<and>
   DMAReadPtr (copy_frame env_senderr (copy_frame env_senderr state_fill)) >
     DMABasePtr (copy_frame env_senderr (copy_frame env_senderr state_fill)) \<and>
   rings_drain env_senderr (compact_dma (copy_frame env_senderr (copy_frame env_senderr state_fill))) \<and>
   DMAHeadPtr (compact_dma (copy_frame env_senderr (copy_frame env_senderr state_fill))) = 4096 \<and>
   DMAReadPtr (compact_dma (copy_frame env_senderr (copy_frame env_senderr state_fill))) = 3600 \<and>
   IQHeadPtr (copy_frame env_senderr state_fill) 0 = 5530"
proof -
  let ?e = env_senderr
  let ?t0 = "state_of (thread_init ?e state0)"
  let ?ta = "state_of (stream_iter ?e 4 state_stream)"
  let ?d = "drain_ddc ?e 0 state_packets"
  let ?w = "drain_all ?e state_packets"
  let ?c = "copy_frame ?e (copy_frame ?e state_fill)"
  note T = ring_pointers [OF decoder_ok_senderr]
  have h0: "\<not> alloc_fails ?e" "frame_ok ?e state0" "0 < VNUMDDC ?e"
    by (simp_all add: env_senderr_simps frame_ok_def state0_def)
  have "rings_drain ?e ?t0 \<and> rings_ok ?e (state_of (OutgoingDDCIQ ?e 6 state0))"
    using h0 T [where s = state0 and f = 6] by blast
  then have g1: "rings_drain ?e ?t0" "rings_ok ?e (state_of (OutgoingDDCIQ ?e 6 state0))"
    by simp_all
  have "same_rings ?t0 state_stream"
    unfolding state_stream_def
    using same_rings_trans same_rings_n_sdr same_rings_arming by blast
  then have g2: "rings_drain ?e state_stream"
    using g1(1) by (simp add: same_rings_phase)
  have g3: "rings_drain ?e ?ta"
    using g2 state_packets_simps(1) T [where s = state_stream and f = 4 and s' = ?ta] by blast
  have "same_rings ?ta state_packets"
    unfolding state_packets_def by (rule same_rings_n_sdr)
  then have g4: "rings_drain ?e state_packets"
    using g3 by (simp add: same_rings_phase)
  have h5: "1428 < IQHeadPtr state_packets 0 - IQReadPtr state_packets 0"
    by (simp add: state_packets_simps)
  have g5: "rings_drain ?e (emit_packet ?e 0 state_packets)"
    using g4 h0(3) h5 T [where s = state_packets and d = 0] by blast
  have "1428 < IQHeadPtr (emit_packet ?e 0 state_packets) 0 - IQReadPtr (emit_packet ?e 0 state_packets) 0"
    by (simp add: state_fill_simps(22))
  then have "rings_drain ?e (emit_packet ?e 0 (emit_packet ?e 0 state_packets))"
    using g5 h0(3) T [where s = "emit_packet ?e 0 state_packets" and d = 0] by blast
  then have g6: "rings_drain ?e ?d"
    by (simp only: state_fill_simps(23))
  have h6: "IQHeadPtr ?d 0 - IQReadPtr ?d 0 \<le> 1428" "IQReadPtr ?d 0 > IQBasePtr ?d 0"
    by (simp_all add: state_fill_simps(24-26))
  have g7: "rings_drain ?e (compact_iq 0 ?d)"
    using g6 h0(3) h6(1) T [where s = ?d and d = 0] by blast
  have "IQHeadPtr (compact_iq 0 ?d) 0 = IQBasePtr ?d 0 \<and>
        IQReadPtr (compact_iq 0 ?d) 0 =
          IQBasePtr ?d 0 - uint (word_of_int (IQHeadPtr ?d 0 - IQReadPtr ?d 0) :: u32)"
    using h6(2) T [where s = ?d and d = 0] by blast
  then have g8: "IQHeadPtr (compact_iq 0 ?d) 0 = 4096" "IQReadPtr (compact_iq 0 ?d) 0 = 4084"
    by (simp_all add: state_fill_simps(24-26))
  have g9: "rings_wait ?e ?w"
    using g4 T [where s = state_packets] by blast
  have "rings_wait ?e (state_of (wait_fifo ?e (Suc 0) (poll_fifo ?e ?w)))"
    using g9 T [where s = ?w and f = "Suc 0"] by blast
  then have "rings_wait ?e (poll_fifo ?e ?w)"
    by (simp only: state_fill_simps(21) state_of.simps)
  then have "rings_parse ?e (dma_read ?e (select_transfer_size (poll_fifo ?e ?w)))"
    using T [where s = "poll_fifo ?e ?w"] by blast
  then have g10: "rings_parse ?e state_fill"
    by (simp only: state_fill_def)
  note p = second_parse [OF state_fill_simps(3,4,7,8,9,14)]
  have h11: "uint (4336 :: u32) = DMAHeadPtr state_fill - DMAReadPtr state_fill"
    "(FrameLength (decode_header ?e state_fill) + 1) * 8 \<le> 4336"
    by (simp_all add: state_fill_simps(3,4,8) p(2))
  have g11: "rings_parse ?e (copy_frame ?e (decode_header ?e state_fill))"
    using g10 h11 T [where s = state_fill and D = 4336] by blast
  have three: "(3 :: nat) = Suc (Suc (Suc 0))"
    by simp
  have h12: "parse_frames ?e 3 (word_of_int (DMAHeadPtr state_fill - DMAReadPtr state_fill)) state_fill =
               Continue ?c"
    unfolding three by (rule p(1))
  have g12: "rings_drain ?e (compact_dma ?c)"
    using g10 h12 T [where s = state_fill and f = 3 and s' = ?c] by blast
  have h13: "DMAReadPtr ?c > DMABasePtr ?c"
    by (simp add: p(3) copy_frame_keeps state_fill_simps(5))
  have "DMAHeadPtr (compact_dma ?c) = DMABasePtr ?c \<and>
        DMAReadPtr (compact_dma ?c) = DMABasePtr ?c - uint (word_of_int (DMAHeadPtr ?c - DMAReadPtr ?c) :: u32)"
    using h13 T [where s = ?c] by blast
  then have g13: "DMAHeadPtr (compact_dma ?c) = 4096" "DMAReadPtr (compact_dma ?c) = 3600"
    by (simp_all add: p(3,4) copy_frame_keeps state_fill_simps(5))
  have "IQHeadPtr (copy_frame ?e state_fill) 0 = IQHeadPtr state_fill 0 + uint (6 * DDCCounts state_fill 0)"
    using h0(3) T [where s = state_fill and d = 0] by blast
  then have g14: "IQHeadPtr (copy_frame ?e state_fill) 0 = 5530"
    by (simp add: state_fill_simps(9,16))
  show ?thesis
    by (intro conjI decoder_ok_senderr h0 g1 g2 g3 g4 h5 g5 h6 g7 g8 g9 g10 h11 g11 h12 h13 g12
        g13 g14 state_packets_simps(1))
qed


end
